theory Spec2Isabelle
  imports Main "HOL-Library.Extended_Nat"
begin

section \<open>Data model of maze.py\<close>

text \<open>
  Positions and directions are pairs of Python integers \<open>(row, col)\<close>. The exceptions the
  modelled code can raise are values: \<open>IndexError\<close> (a list index that does not resolve),
  \<open>TypeError\<close> (unpacking or zipping \<open>None\<close>) and the generic \<open>Exception(msg)\<close> that
  \<open>A_star\<close> raises.
\<close>

type_synonym pos = "int \<times> int"

datatype error = IndexError | TypeError | Exception string

definition NoAvailableMove :: error where
  "NoAvailableMove = Exception ''No available directions to move.''"

text \<open>\<open>add_tuples(a, b)\<close> on two pairs.\<close>

fun add_tuples :: "pos \<Rightarrow> pos \<Rightarrow> pos" where
  "add_tuples (a1, a2) (b1, b2) = (a1 + b1, a2 + b2)"

text \<open>
  Python list indexing: an index \<open>i\<close> with \<open>0 \<le> i < n\<close> is itself, one with \<open>-n \<le> i < 0\<close>
  counts from the end, anything else raises \<open>IndexError\<close> (here \<open>None\<close>).
\<close>

definition py_index :: "'a list \<Rightarrow> int \<Rightarrow> nat option" where
  "py_index xs i =
     (let n = int (length xs)
      in if 0 \<le> i \<and> i < n then Some (nat i)
         else if - n \<le> i \<and> i < 0 then Some (nat (n + i))
         else None)"

text \<open>\<open>grid[r][c]\<close> and \<open>grid[r][c] = v\<close> on a list of lists.\<close>

definition grid_get :: "'a list list \<Rightarrow> int \<Rightarrow> int \<Rightarrow> error + 'a" where
  "grid_get g r c =
     (case py_index g r of
        None \<Rightarrow> Inl IndexError
      | Some i \<Rightarrow>
          (case py_index (g ! i) c of
             None \<Rightarrow> Inl IndexError
           | Some j \<Rightarrow> Inr (g ! i ! j)))"

definition grid_upd :: "'a list list \<Rightarrow> int \<Rightarrow> int \<Rightarrow> ('a \<Rightarrow> 'a) \<Rightarrow> error + 'a list list" where
  "grid_upd g r c f =
     (case py_index g r of
        None \<Rightarrow> Inl IndexError
      | Some i \<Rightarrow>
          (case py_index (g ! i) c of
             None \<Rightarrow> Inl IndexError
           | Some j \<Rightarrow> Inr (g[i := (g ! i)[j := f (g ! i ! j)]])))"

record MazeNode =
  traversable :: bool
  is_start :: bool
  is_end :: bool
  visited :: bool

definition MazeNode_init :: "bool \<Rightarrow> MazeNode" where
  "MazeNode_init t = \<lparr>traversable = t, is_start = False, is_end = False, visited = False\<rparr>"

record Maze =
  maze :: "MazeNode list list"
  rows :: int
  cols :: int
  start_node :: "pos option"
  end_node :: "pos option"

definition create_maze :: "string list \<Rightarrow> MazeNode list list" where
  "create_maze layout = map (map (\<lambda>cell. MazeNode_init (cell \<noteq> CHR ''#''))) layout"

text \<open>\<open>Maze.__init__\<close>: no statement of the constructor raises, so it is a total function.\<close>

definition Maze_init :: "string list \<Rightarrow> Maze" where
  "Maze_init maze_layout =
     (let mz = create_maze maze_layout;
          rs = int (length mz)
      in \<lparr>maze = mz, rows = rs,
          cols = (if rs > 0 then int (length (mz ! 0)) else 0),
          start_node = None, end_node = None\<rparr>)"

text \<open>
  \<open>set_start\<close> and \<open>set_end\<close>: the cell write comes first and is unguarded (it raises
  \<open>IndexError\<close> before anything is changed, or resolves, possibly through a negative
  index); the coordinate is recorded only under the bounds check.
\<close>

definition set_start :: "Maze \<Rightarrow> int \<Rightarrow> int \<Rightarrow> error + Maze" where
  "set_start m row col =
     (case grid_upd (maze m) row col (\<lambda>n. n\<lparr>is_start := True\<rparr>) of
        Inl e \<Rightarrow> Inl e
      | Inr mz \<Rightarrow>
          (if 0 \<le> row \<and> row < rows m \<and> 0 \<le> col \<and> col < cols m
           then Inr (m\<lparr>maze := mz, start_node := Some (row, col)\<rparr>)
           else Inr (m\<lparr>maze := mz\<rparr>)))"

definition set_end :: "Maze \<Rightarrow> int \<Rightarrow> int \<Rightarrow> error + Maze" where
  "set_end m row col =
     (case grid_upd (maze m) row col (\<lambda>n. n\<lparr>is_end := True\<rparr>) of
        Inl e \<Rightarrow> Inl e
      | Inr mz \<Rightarrow>
          (if 0 \<le> row \<and> row < rows m \<and> 0 \<le> col \<and> col < cols m
           then Inr (m\<lparr>maze := mz, end_node := Some (row, col)\<rparr>)
           else Inr (m\<lparr>maze := mz\<rparr>)))"

definition dirs4 :: "pos list" where
  "dirs4 = [(0, 1), (1, 0), (0, -1), (-1, 0)]"

text \<open>
  The loop of \<open>get_available_directions\<close> over a list of directions, appending to
  \<open>directions\<close>. The cell is read only after the bounds check (Python's \<open>and\<close>).
\<close>

fun available_loop :: "Maze \<Rightarrow> int \<Rightarrow> int \<Rightarrow> pos list \<Rightarrow> pos list \<Rightarrow> error + pos list" where
  "available_loop m row col [] directions = Inr directions"
| "available_loop m row col ((dr, dc) # ds) directions =
     (let new_row = row + dr; new_col = col + dc
      in if 0 \<le> new_row \<and> new_row < rows m \<and> 0 \<le> new_col \<and> new_col < cols m
         then (case grid_get (maze m) new_row new_col of
                 Inl e \<Rightarrow> Inl e
               | Inr n \<Rightarrow>
                   if traversable n
                   then available_loop m row col ds (directions @ [(dr, dc)])
                   else available_loop m row col ds directions)
         else available_loop m row col ds directions)"

definition get_available_directions :: "Maze \<Rightarrow> int \<Rightarrow> int \<Rightarrow> error + pos list" where
  "get_available_directions m row col = available_loop m row col dirs4 []"


section \<open>The distance oracle\<close>

text \<open>
  The inner \<open>for\<close> loop of \<open>calculate_distance_to_end\<close>: each in-bounds, traversable
  neighbour that is not in the local \<open>visited\<close> set is appended to the queue with
  \<open>distance + 1\<close>.
\<close>

type_synonym queue = "(int \<times> int \<times> nat) list"

fun enqueue_loop ::
  "Maze \<Rightarrow> pos set \<Rightarrow> int \<Rightarrow> int \<Rightarrow> nat \<Rightarrow> pos list \<Rightarrow> queue \<Rightarrow> error + queue" where
  "enqueue_loop m vis row col distance [] q = Inr q"
| "enqueue_loop m vis row col distance ((dr, dc) # ds) q =
     (let new_row = row + dr; new_col = col + dc
      in if 0 \<le> new_row \<and> new_row < rows m \<and> 0 \<le> new_col \<and> new_col < cols m
         then (case grid_get (maze m) new_row new_col of
                 Inl e \<Rightarrow> Inl e
               | Inr n \<Rightarrow>
                   if traversable n \<and> (new_row, new_col) \<notin> vis
                   then enqueue_loop m vis row col distance ds (q @ [(new_row, new_col, distance + 1)])
                   else enqueue_loop m vis row col distance ds q)
         else enqueue_loop m vis row col distance ds q)"

definition cells :: "Maze \<Rightarrow> pos set" where
  "cells m = {0..<rows m} \<times> {0..<cols m}"

definition qpos :: "queue \<Rightarrow> pos set" where
  "qpos q = (\<lambda>(r, c, d). (r, c)) ` set q"

lemma finite_cells: "finite (cells m)"
  by (simp add: cells_def)

lemma finite_qpos: "finite (qpos q)"
  by (simp add: qpos_def)

lemma qpos_append: "qpos (q @ q') = qpos q \<union> qpos q'"
  by (simp add: qpos_def image_Un)

lemma qpos_Cons: "qpos ((r, c, d) # q) = insert (r, c) (qpos q)"
  by (simp add: qpos_def)

lemma qpos_snoc: "qpos (q @ [(r, c, d)]) = insert (r, c) (qpos q)"
  by (simp add: qpos_def image_Un)

lemma enqueue_loop_qpos:
  "enqueue_loop m vis row col distance ds q = Inr q' \<Longrightarrow> qpos q' \<subseteq> qpos q \<union> cells m"
proof (induction ds arbitrary: q)
  case Nil
  then show ?case by auto
next
  case (Cons d ds)
  obtain dr dc where d: "d = (dr, dc)" by (cases d)
  let ?p = "(row + dr, col + dc)"
  from Cons.prems consider
      (push) "?p \<in> cells m"
        "enqueue_loop m vis row col distance ds (q @ [(row + dr, col + dc, distance + 1)]) = Inr q'"
    | (skip) "enqueue_loop m vis row col distance ds q = Inr q'"
    unfolding d by (auto simp: Let_def cells_def split: if_splits sum.splits)
  then show ?case
  proof cases
    case push
    from Cons.IH [OF push(2)] push(1) show ?thesis
      by (auto simp: qpos_snoc)
  next
    case skip
    from Cons.IH [OF skip] show ?thesis .
  qed
qed

text \<open>
  The \<open>while queue\<close> loop: the queue is a list (\<open>popleft\<close> takes the head, \<open>append\<close> adds at
  the end), \<open>vis\<close> is the local \<open>visited\<close> set, the result is a distance or
  \<open>float('inf')\<close> (\<open>\<infinity>\<close> of \<open>enat\<close>).
\<close>

function bfs :: "Maze \<Rightarrow> queue \<Rightarrow> pos set \<Rightarrow> error + enat" where
  "bfs m [] vis = Inr \<infinity>"
| "bfs m ((row, col, distance) # q) vis =
     (if Some (row, col) = end_node m then Inr (enat distance)
      else if (row, col) \<in> vis then bfs m q vis
      else (case enqueue_loop m (insert (row, col) vis) row col distance dirs4 q of
              Inl e \<Rightarrow> Inl e
            | Inr q' \<Rightarrow> bfs m q' (insert (row, col) vis)))"
  by pat_completeness auto
termination
proof (relation "measures [\<lambda>(m, q, vis). card ((cells m \<union> qpos q) - vis), \<lambda>(m, q, vis). length q]",
       goal_cases)
  case 1
  then show ?case by simp
next
  case (2 m row col distance q vis)
  have "(cells m \<union> qpos q) - vis \<subseteq> (cells m \<union> qpos ((row, col, distance) # q)) - vis"
    by (auto simp: qpos_Cons)
  then have "card ((cells m \<union> qpos q) - vis) \<le> card ((cells m \<union> qpos ((row, col, distance) # q)) - vis)"
    by (intro card_mono) (auto simp: finite_cells finite_qpos)
  then show ?case by auto
next
  case (3 m row col distance q vis q')
  have sub: "qpos q' \<subseteq> qpos q \<union> cells m"
    using 3 enqueue_loop_qpos by blast
  have "(cells m \<union> qpos q') - insert (row, col) vis \<subset> (cells m \<union> qpos ((row, col, distance) # q)) - vis"
    using sub 3(2) by (auto simp: qpos_Cons)
  then have "card ((cells m \<union> qpos q') - insert (row, col) vis)
               < card ((cells m \<union> qpos ((row, col, distance) # q)) - vis)"
    by (intro psubset_card_mono) (auto simp: finite_cells finite_qpos)
  then show ?case by auto
qed

definition calculate_distance_to_end :: "Maze \<Rightarrow> int \<Rightarrow> int \<Rightarrow> error + enat" where
  "calculate_distance_to_end m start_row start_col = bfs m [(start_row, start_col, 0)] {}"


section \<open>The stepwise solver\<close>

record MazeSolver =
  solver_maze :: Maze
  current_pos :: "pos option"
  facing :: int
  solver :: string

text \<open>\<open>MazeSolver.__init__\<close> stores the strategy string as it is given; nothing is checked.\<close>

definition MazeSolver_init :: "Maze \<Rightarrow> string \<Rightarrow> MazeSolver" where
  "MazeSolver_init mz strategy =
     \<lparr>solver_maze = mz, current_pos = start_node mz, facing = 0, solver = strategy\<rparr>"

text \<open>
  The \<open>for direction in directions\<close> loop of \<open>A_star\<close>, carrying \<open>least_dist\<close> and
  \<open>best_move\<close>. \<open>add_tuples(self.current_pos, direction)\<close> raises \<open>TypeError\<close> when
  \<open>current_pos\<close> is \<open>None\<close>; the cell read is unguarded.
\<close>

fun A_star_loop ::
  "MazeSolver \<Rightarrow> pos list \<Rightarrow> enat \<Rightarrow> pos option \<Rightarrow> error + (enat \<times> pos option)" where
  "A_star_loop s [] least_dist best_move = Inr (least_dist, best_move)"
| "A_star_loop s (direction # ds) least_dist best_move =
     (case current_pos s of
        None \<Rightarrow> Inl TypeError
      | Some cp \<Rightarrow>
          (let new_pos = add_tuples cp direction
           in case grid_get (maze (solver_maze s)) (fst new_pos) (snd new_pos) of
                Inl e \<Rightarrow> Inl e
              | Inr n \<Rightarrow>
                  if traversable n
                  then (case calculate_distance_to_end (solver_maze s) (fst new_pos) (snd new_pos) of
                          Inl e \<Rightarrow> Inl e
                        | Inr distance_to_end \<Rightarrow>
                            if distance_to_end < least_dist
                            then A_star_loop s ds distance_to_end (Some direction)
                            else A_star_loop s ds least_dist best_move)
                  else A_star_loop s ds least_dist best_move))"

text \<open>
  \<open>A_star\<close>: the outcome (an exception or normal return) and the solver afterwards. A
  direction is a 2-tuple, so \<open>if best_move\<close> is true exactly when \<open>best_move\<close> is not \<open>None\<close>.
\<close>

definition A_star :: "MazeSolver \<Rightarrow> int \<Rightarrow> int \<Rightarrow> (error + unit) \<times> MazeSolver" where
  "A_star s row col =
     (case get_available_directions (solver_maze s) row col of
        Inl e \<Rightarrow> (Inl e, s)
      | Inr directions \<Rightarrow>
          (case A_star_loop s directions \<infinity> None of
             Inl e \<Rightarrow> (Inl e, s)
           | Inr (least_dist, best_move) \<Rightarrow>
               (case best_move of
                  Some bm \<Rightarrow>
                    (case current_pos s of
                       None \<Rightarrow> (Inl TypeError, s)
                     | Some cp \<Rightarrow> (Inr (), s\<lparr>current_pos := Some (add_tuples cp bm)\<rparr>))
                | None \<Rightarrow> (Inl NoAvailableMove, s))))"

definition find_move :: "MazeSolver \<Rightarrow> int \<Rightarrow> int \<Rightarrow> (error + unit) \<times> MazeSolver" where
  "find_move s row col = (if solver s = ''A*'' then A_star s row col else (Inr (), s))"

text \<open>
  \<open>solve_step\<close>: the outcome of the call and the solver the caller observes afterwards.
  The visited flag is written before \<open>find_move\<close> runs, so it stays written when
  \<open>find_move\<close> raises.
\<close>

definition solve_step :: "MazeSolver \<Rightarrow> (error + bool) \<times> MazeSolver" where
  "solve_step s =
     (if current_pos s = end_node (solver_maze s) then (Inr True, s)
      else (case current_pos s of
              None \<Rightarrow> (Inl TypeError, s)
            | Some (row, col) \<Rightarrow>
                (case grid_upd (maze (solver_maze s)) row col (\<lambda>n. n\<lparr>visited := True\<rparr>) of
                   Inl e \<Rightarrow> (Inl e, s)
                 | Inr mz \<Rightarrow>
                     (case find_move (s\<lparr>solver_maze := (solver_maze s)\<lparr>maze := mz\<rparr>\<rparr>) row col of
                        (Inl e, s') \<Rightarrow> (Inl e, s')
                      | (Inr u, s') \<Rightarrow> (Inr False, s')))))"

text \<open>
  The driver's loop \<open>while not solved: solved = solver.solve_step()\<close>, cut off after
  \<open>n\<close> calls: the number of calls made and the outcome of the last one (\<open>Inr False\<close>
  when the budget ran out with the maze unsolved).
\<close>

fun solve_loop :: "nat \<Rightarrow> MazeSolver \<Rightarrow> nat \<times> (error + bool)" where
  "solve_loop 0 s = (0, Inr False)"
| "solve_loop (Suc n) s =
     (case solve_step s of
        (Inr False, s') \<Rightarrow> (case solve_loop n s' of (k, r) \<Rightarrow> (Suc k, r))
      | (r, s') \<Rightarrow> (Suc 0, r))"

section \<open>The generator\<close>

record MazeGenerator =
  width :: int
  height :: int
  gen_maze :: "char list list"

definition MazeGenerator_init :: "int \<Rightarrow> int \<Rightarrow> MazeGenerator" where
  "MazeGenerator_init w h =
     \<lparr>width = w, height = h, gen_maze = replicate (nat h) (replicate (nat w) CHR ''#'')\<rparr>"

text \<open>
  The random source: the \<open>k\<close>-th call of \<open>random.shuffle(directions)\<close> of a run leaves
  \<open>directions\<close> as \<open>sh k\<close>. The generator state carries the number of shuffles done.
  \<open>carve_loop\<close> is the \<open>for dx, dy in directions\<close> loop of \<open>_carve_passages_from\<close>; its
  first argument bounds the depth of the recursion (\<open>None\<close> when it is exceeded).
\<close>

type_synonym shuffles = "nat \<Rightarrow> pos list"

fun carve_loop ::
  "shuffles \<Rightarrow> nat \<Rightarrow> int \<Rightarrow> int \<Rightarrow> pos list \<Rightarrow> MazeGenerator \<times> nat
     \<Rightarrow> (error + MazeGenerator \<times> nat) option" where
  "carve_loop sh depth cx cy [] st = Some (Inr st)"
| "carve_loop sh depth cx cy ((dx, dy) # ds) (g, k) =
     (let nx = cx + dx * 2; ny = cy + dy * 2
      in if 0 \<le> nx \<and> nx < width g \<and> 0 \<le> ny \<and> ny < height g
         then (case grid_get (gen_maze g) ny nx of
                 Inl e \<Rightarrow> Some (Inl e)
               | Inr ch \<Rightarrow>
                   if ch = CHR ''#''
                   then (case grid_upd (gen_maze g) (cy + dy) (cx + dx) (\<lambda>_. CHR '' '') of
                           Inl e \<Rightarrow> Some (Inl e)
                         | Inr g1 \<Rightarrow>
                             (case grid_upd g1 ny nx (\<lambda>_. CHR '' '') of
                                Inl e \<Rightarrow> Some (Inl e)
                              | Inr g2 \<Rightarrow>
                                  (case depth of
                                     0 \<Rightarrow> None
                                   | Suc depth' \<Rightarrow>
                                       (case carve_loop sh depth' nx ny (sh k)
                                               (g\<lparr>gen_maze := g2\<rparr>, Suc k) of
                                          None \<Rightarrow> None
                                        | Some (Inl e) \<Rightarrow> Some (Inl e)
                                        | Some (Inr st') \<Rightarrow> carve_loop sh depth cx cy ds st'))))
                   else carve_loop sh depth cx cy ds (g, k))
         else carve_loop sh depth cx cy ds (g, k))"

definition carve_passages_from ::
  "shuffles \<Rightarrow> nat \<Rightarrow> int \<Rightarrow> int \<Rightarrow> MazeGenerator \<times> nat \<Rightarrow> (error + MazeGenerator \<times> nat) option" where
  "carve_passages_from sh depth cx cy st =
     (case st of (g, k) \<Rightarrow> carve_loop sh depth cx cy (sh k) (g, Suc k))"

text \<open>\<open>generate\<close>: carve from \<open>(1, 1)\<close>, write the two markers, return the rows as strings.\<close>

definition generate :: "shuffles \<Rightarrow> nat \<Rightarrow> MazeGenerator \<Rightarrow> (error + string list) option" where
  "generate sh depth g =
     (case carve_passages_from sh depth 1 1 (g, 0) of
        None \<Rightarrow> None
      | Some (Inl e) \<Rightarrow> Some (Inl e)
      | Some (Inr (g1, k)) \<Rightarrow>
          Some (case grid_upd (gen_maze g1) 1 1 (\<lambda>_. CHR ''S'') of
                  Inl e \<Rightarrow> Inl e
                | Inr gm \<Rightarrow>
                    grid_upd gm (height g1 - 2) (width g1 - 2) (\<lambda>_. CHR ''E'')))"

definition wf_maze :: "Maze \<Rightarrow> bool" where
  "wf_maze m \<longleftrightarrow> rows m = int (length (maze m)) \<and> (\<forall>r \<in> set (maze m). int (length r) = cols m)"

definition same_walls :: "MazeNode list list \<Rightarrow> MazeNode list list \<Rightarrow> bool" where
  "same_walls g g' \<longleftrightarrow> list_all2 (list_all2 (\<lambda>a b. traversable a = traversable b)) g g'"

definition same_layout :: "Maze \<Rightarrow> Maze \<Rightarrow> bool" where
  "same_layout m m' \<longleftrightarrow>
     rows m' = rows m \<and> cols m' = cols m \<and> end_node m' = end_node m \<and> same_walls (maze m) (maze m')"

lemma py_index_less: "py_index xs i = Some k \<Longrightarrow> k < length xs"
  by (auto simp: py_index_def Let_def split: if_splits)

lemma py_index_length_cong: "length xs = length ys \<Longrightarrow> py_index xs i = py_index ys i"
  by (simp add: py_index_def)

lemma py_index_in_range: "0 \<le> i \<Longrightarrow> i < int (length xs) \<Longrightarrow> py_index xs i = Some (nat i)"
  by (simp add: py_index_def)

lemma grid_upd_error: "grid_upd g r c f = Inl e \<Longrightarrow> e = IndexError"
  by (auto simp: grid_upd_def split: option.splits)

lemma grid_get_error: "grid_get g r c = Inl e \<Longrightarrow> e = IndexError"
  by (auto simp: grid_get_def split: option.splits)

lemma same_walls_refl: "same_walls g g"
  by (simp add: same_walls_def list_all2_refl)

lemma list_all2_upd_same:
  assumes "\<And>x. R x (f x)" and "\<And>x. R x x"
  shows "list_all2 R xs (xs[j := f (xs ! j)])"
  unfolding list_all2_conv_all_nth
proof (intro conjI allI impI)
  show "length xs = length (xs[j := f (xs ! j)])" by simp
next
  fix l assume "l < length xs"
  then show "R (xs ! l) (xs[j := f (xs ! j)] ! l)"
    using assms by (cases "l = j") simp_all
qed

lemma same_walls_upd:
  assumes "grid_upd g r c f = Inr g'" and "\<And>n. traversable (f n) = traversable n"
  shows "same_walls g g'"
proof -
  from assms(1) obtain i j where i: "py_index g r = Some i" and j: "py_index (g ! i) c = Some j"
    and g': "g' = g[i := (g ! i)[j := f (g ! i ! j)]]"
    by (auto simp: grid_upd_def split: option.splits)
  let ?R = "list_all2 (\<lambda>a b. traversable a = traversable b)"
  have rowi: "?R x (x[j := f (x ! j)])" for x
    by (rule list_all2_upd_same) (simp_all add: assms(2))
  have refl: "?R x x" for x
    by (simp add: list_all2_refl)
  have "list_all2 ?R g (g[i := (\<lambda>row. row[j := f (row ! j)]) (g ! i)])"
    by (rule list_all2_upd_same) (rule rowi, rule refl)
  then show ?thesis
    unfolding same_walls_def g' by simp
qed
lemma same_walls_get:
  assumes "same_walls g g'"
  shows "map_sum id traversable (grid_get g' r c) = map_sum id traversable (grid_get g r c)"
proof -
  have len: "length g = length g'"
    using assms by (simp add: same_walls_def list_all2_lengthD)
  have row: "list_all2 (\<lambda>a b. traversable a = traversable b) (g ! k) (g' ! k)" if "k < length g" for k
    using assms that by (simp add: same_walls_def list_all2_conv_all_nth)
  show ?thesis
  proof (cases "py_index g r")
    case None
    then show ?thesis using py_index_length_cong [OF len, of r] by (simp add: grid_get_def)
  next
    case (Some i)
    then have i: "i < length g" by (rule py_index_less)
    have pi: "py_index g' r = Some i" using Some py_index_length_cong [OF len, of r] by simp
    have rl: "length (g ! i) = length (g' ! i)" using row [OF i] by (rule list_all2_lengthD)
    show ?thesis
    proof (cases "py_index (g ! i) c")
      case None
      then show ?thesis using Some pi py_index_length_cong [OF rl, of c] by (simp add: grid_get_def)
    next
      case (Some j)
      then have j: "j < length (g ! i)" by (rule py_index_less)
      have pj: "py_index (g' ! i) c = Some j" using Some py_index_length_cong [OF rl, of c] by simp
      have "traversable (g ! i ! j) = traversable (g' ! i ! j)"
        using row [OF i] j by (simp add: list_all2_conv_all_nth)
      then show ?thesis using Some \<open>py_index g r = Some i\<close> pi pj by (simp add: grid_get_def)
    qed
  qed
qed

lemma same_walls_get_cases:
  assumes "same_walls g g'"
  shows "(\<exists>e. grid_get g r c = Inl e \<and> grid_get g' r c = Inl e) \<or>
         (\<exists>n n'. grid_get g r c = Inr n \<and> grid_get g' r c = Inr n' \<and> traversable n' = traversable n)"
  using same_walls_get [OF assms, of r c]
  by (cases "grid_get g r c"; cases "grid_get g' r c") auto

lemma available_loop_same_layout:
  assumes "same_layout m m'"
  shows "available_loop m' row col ds acc = available_loop m row col ds acc"
proof (induction ds arbitrary: acc)
  case Nil
  then show ?case by simp
next
  case (Cons d ds)
  obtain dr dc where d: "d = (dr, dc)" by (cases d)
  from assms have sw: "same_walls (maze m) (maze m')" and r: "rows m' = rows m" and c: "cols m' = cols m"
    by (simp_all add: same_layout_def)
  from same_walls_get_cases [OF sw, of "row + dr" "col + dc"] show ?case
  proof (elim disjE exE conjE)
    fix e assume "grid_get (maze m) (row + dr) (col + dc) = Inl e"
      "grid_get (maze m') (row + dr) (col + dc) = Inl e"
    then show ?thesis unfolding d by (simp add: Let_def r c Cons.IH)
  next
    fix n n' assume "grid_get (maze m) (row + dr) (col + dc) = Inr n"
      "grid_get (maze m') (row + dr) (col + dc) = Inr n'" "traversable n' = traversable n"
    then show ?thesis unfolding d by (simp add: Let_def r c Cons.IH)
  qed
qed

lemma enqueue_loop_same_layout:
  assumes "same_layout m m'"
  shows "enqueue_loop m' vis row col dd ds q = enqueue_loop m vis row col dd ds q"
proof (induction ds arbitrary: q)
  case Nil
  then show ?case by simp
next
  case (Cons d ds)
  obtain dr dc where d: "d = (dr, dc)" by (cases d)
  from assms have sw: "same_walls (maze m) (maze m')" and r: "rows m' = rows m" and c: "cols m' = cols m"
    by (simp_all add: same_layout_def)
  from same_walls_get_cases [OF sw, of "row + dr" "col + dc"] show ?case
  proof (elim disjE exE conjE)
    fix e assume "grid_get (maze m) (row + dr) (col + dc) = Inl e"
      "grid_get (maze m') (row + dr) (col + dc) = Inl e"
    then show ?thesis unfolding d by (simp add: Let_def r c Cons.IH)
  next
    fix n n' assume "grid_get (maze m) (row + dr) (col + dc) = Inr n"
      "grid_get (maze m') (row + dr) (col + dc) = Inr n'" "traversable n' = traversable n"
    then show ?thesis unfolding d by (simp add: Let_def r c Cons.IH)
  qed
qed


lemma bfs_same_layout:
  assumes "same_layout m m'"
  shows "bfs m' q vis = bfs m q vis"
  using assms
proof (induction m q vis rule: bfs.induct)
  case (1 m vis)
  then show ?case by simp
next
  case (2 m row col distance q vis)
  have e: "end_node m' = end_node m" using 2(3) by (simp add: same_layout_def)
  note enq = enqueue_loop_same_layout [OF 2(3)]
  show ?case
  proof (cases "Some (row, col) = end_node m")
    case True
    then show ?thesis by (simp add: e)
  next
    case False
    note ne = this
    show ?thesis
    proof (cases "(row, col) \<in> vis")
      case True
      then show ?thesis using ne 2(1) [OF ne True 2(3)] by (simp add: e)
    next
      case False
      show ?thesis
      proof (cases "enqueue_loop m (insert (row, col) vis) row col distance dirs4 q")
        case (Inl a)
        then show ?thesis using ne False by (simp add: e enq)
      next
        case (Inr q')
        then show ?thesis using ne False 2(2) [OF ne False Inr 2(3)] by (simp add: e enq)
      qed
    qed
  qed
qed

lemma calculate_distance_same_layout:
  "same_layout m m' \<Longrightarrow> calculate_distance_to_end m' r c = calculate_distance_to_end m r c"
  unfolding calculate_distance_to_end_def by (rule bfs_same_layout)

section \<open>Building a grid as the driver does\<close>

text \<open>
  The driver's sequence \<open>maze = Maze(layout); maze.set_start(sr, sc); maze.set_end(er, ec)\<close>;
  an exception of either call ends it.
\<close>

definition build_maze :: "string list \<Rightarrow> pos \<Rightarrow> pos \<Rightarrow> error + Maze" where
  "build_maze layout s e =
     (case set_start (Maze_init layout) (fst s) (snd s) of
        Inl err \<Rightarrow> Inl err
      | Inr m1 \<Rightarrow> set_end m1 (fst e) (snd e))"

text \<open>Cells and small grids used as concrete inputs below.\<close>

definition wall_cell :: MazeNode where
  "wall_cell = \<lparr>traversable = False, is_start = False, is_end = False, visited = False\<rparr>"

definition open_cell :: MazeNode where
  "open_cell = \<lparr>traversable = True, is_start = False, is_end = False, visited = False\<rparr>"

definition start_cell :: MazeNode where
  "start_cell = \<lparr>traversable = True, is_start = True, is_end = False, visited = False\<rparr>"

definition end_cell :: MazeNode where
  "end_cell = \<lparr>traversable = True, is_start = False, is_end = True, visited = False\<rparr>"

definition grid_3x3 :: Maze where
  "grid_3x3 =
     \<lparr>maze = [[wall_cell, wall_cell, wall_cell],
              [wall_cell, \<lparr>traversable = True, is_start = True, is_end = True, visited = False\<rparr>, wall_cell],
              [wall_cell, wall_cell, wall_cell]],
      rows = 3, cols = 3, start_node = Some (1, 1), end_node = Some (1, 1)\<rparr>"

definition corridor :: Maze where
  "corridor = \<lparr>maze = [[start_cell, end_cell]], rows = 1, cols = 2,
                start_node = Some (0, 0), end_node = Some (0, 1)\<rparr>"

definition walled :: Maze where
  "walled = \<lparr>maze = [[start_cell, wall_cell, end_cell]], rows = 1, cols = 3,
              start_node = Some (0, 0), end_node = Some (0, 2)\<rparr>"

lemmas grid_eval =
  build_maze_def set_start_def set_end_def Maze_init_def create_maze_def MazeNode_init_def
  grid_upd_def grid_get_def py_index_def Let_def
  wall_cell_def open_cell_def start_cell_def end_cell_def

lemma build_grid_3x3: "build_maze [''###'', ''# #'', ''###''] (1, 1) (1, 1) = Inr grid_3x3"
  by (simp add: grid_eval grid_3x3_def)

lemma build_corridor: "build_maze [''  ''] (0, 0) (0, 1) = Inr corridor"
  by (simp add: grid_eval corridor_def)

lemma build_walled: "build_maze ['' # ''] (0, 0) (0, 2) = Inr walled"
  by (simp add: grid_eval walled_def)

lemma set_start_fields:
  assumes "set_start m r c = Inr m'"
  shows "rows m' = rows m" "cols m' = cols m" "end_node m' = end_node m"
    "start_node m' = (if 0 \<le> r \<and> r < rows m \<and> 0 \<le> c \<and> c < cols m then Some (r, c) else start_node m)"
  using assms by (auto simp: set_start_def split: sum.splits if_splits)

lemma set_end_fields:
  assumes "set_end m r c = Inr m'"
  shows "rows m' = rows m" "cols m' = cols m" "start_node m' = start_node m"
    "end_node m' = (if 0 \<le> r \<and> r < rows m \<and> 0 \<le> c \<and> c < cols m then Some (r, c) else end_node m)"
  using assms by (auto simp: set_end_def split: sum.splits if_splits)

lemma Maze_init_nodes: "start_node (Maze_init layout) = None" "end_node (Maze_init layout) = None"
  by (simp_all add: Maze_init_def Let_def)

text \<open>
  C6. In every solver state whose current position equals the grid's end position, one call
  of \<open>solve_step\<close> returns \<open>True\<close> and the solver (position, strategy and the whole grid with
  every visited flag) is returned as it was. In particular, for a grid built with the same
  coordinate as start and end, the first step of a fresh solver returns \<open>True\<close>.
\<close>

theorem solve_step_at_end_unchanged:
  "(current_pos s = end_node (solver_maze s) \<longrightarrow> solve_step s = (Inr True, s)) \<and>
   (build_maze layout (r, c) (r, c) = Inr m \<longrightarrow>
      solve_step (MazeSolver_init m strategy) = (Inr True, MazeSolver_init m strategy))"
proof (intro conjI impI)
  assume "current_pos s = end_node (solver_maze s)"
  then show "solve_step s = (Inr True, s)"
    by (simp add: solve_step_def)
next
  assume b: "build_maze layout (r, c) (r, c) = Inr m"
  then obtain m1 where s: "set_start (Maze_init layout) r c = Inr m1" and e: "set_end m1 r c = Inr m"
    by (auto simp: build_maze_def split: sum.splits)
  have "start_node m = end_node m"
    using set_start_fields [OF s] set_end_fields [OF e] by (simp add: Maze_init_nodes)
  then show "solve_step (MazeSolver_init m strategy) = (Inr True, MazeSolver_init m strategy)"
    by (simp add: solve_step_def MazeSolver_init_def)
qed

theorem solve_step_at_end_unchanged_witness:
  "current_pos (MazeSolver_init grid_3x3 ''A*'') = end_node (solver_maze (MazeSolver_init grid_3x3 ''A*'')) \<and>
   build_maze [''###'', ''# #'', ''###''] (1, 1) (1, 1) = Inr grid_3x3 \<and>
   solve_step (MazeSolver_init grid_3x3 ''A*'') = (Inr True, MazeSolver_init grid_3x3 ''A*'')"
  using solve_step_at_end_unchanged [of "MazeSolver_init grid_3x3 ''A*''" "[''###'', ''# #'', ''###'']" 1 1 grid_3x3 "''A*''"]
    build_grid_3x3
  by (simp add: MazeSolver_init_def grid_3x3_def)

text \<open>
  C7 (as stated, refuted). The constructor has no check and no failing branch: the ragged
  layout \<open>["##", "###"]\<close> and the empty layout both produce a grid.
\<close>

theorem ragged_layout_accepted:
  "Maze_init [''##'', ''###''] =
     \<lparr>maze = [[wall_cell, wall_cell], [wall_cell, wall_cell, wall_cell]],
      rows = 2, cols = 2, start_node = None, end_node = None\<rparr> \<and>
   Maze_init [] = \<lparr>maze = [], rows = 0, cols = 0, start_node = None, end_node = None\<rparr>"
  by (simp add: grid_eval)

text \<open>
  C7 (amended). For every layout, ragged and empty ones included, construction returns a grid:
  \<open>rows\<close> is the number of layout rows, \<open>cols\<close> is the length of the first row (0 for the
  empty layout), every cell keeps the place of its character, is traversable exactly when the
  character is not \<open>#\<close> and has all flags cleared, and no start or end is recorded.
\<close>

theorem Maze_init_total:
  "rows (Maze_init layout) = int (length layout) \<and>
   cols (Maze_init layout) = (case layout of [] \<Rightarrow> 0 | first # rest \<Rightarrow> int (length first)) \<and>
   maze (Maze_init layout) = map (map (\<lambda>ch. MazeNode_init (ch \<noteq> CHR ''#''))) layout \<and>
   start_node (Maze_init layout) = None \<and> end_node (Maze_init layout) = None"
  by (cases layout) (simp_all add: Maze_init_def create_maze_def Let_def)

lemma add_tuples_eq: "add_tuples (row, col) d = (row + fst d, col + snd d)"
  by (cases d) simp

lemma grid_upd_shape:
  assumes "grid_upd g r c f = Inr g'"
  shows "length g' = length g" and "\<And>k. length (g' ! k) = length (g ! k)"
proof -
  from assms obtain i j where i: "py_index g r = Some i"
    and g': "g' = g[i := (g ! i)[j := f (g ! i ! j)]]"
    by (auto simp: grid_upd_def split: option.splits)
  have il: "i < length g" using i by (rule py_index_less)
  show "length g' = length g" by (simp add: g')
  show "length (g' ! k) = length (g ! k)" for k
    using il by (cases "k = i") (simp_all add: g')
qed

lemma grid_upd_again:
  assumes "grid_upd g r c f = Inr g'"
  shows "\<exists>g''. grid_upd g' r c f' = Inr g''"
proof -
  from assms obtain i j where i: "py_index g r = Some i" and j: "py_index (g ! i) c = Some j"
    by (auto simp: grid_upd_def split: option.splits)
  have "py_index g' r = Some i"
    using i py_index_length_cong [OF grid_upd_shape(1) [OF assms], of r] by simp
  moreover have "py_index (g' ! i) c = Some j"
    using j py_index_length_cong [OF grid_upd_shape(2) [OF assms], of i c] by simp
  ultimately show ?thesis by (simp add: grid_upd_def)
qed

lemma grid_get_upd:
  assumes "grid_upd g r c f = Inr g'"
  shows "\<exists>n. grid_get g r c = Inr n \<and> grid_get g' r c = Inr (f n)"
proof -
  from assms obtain i j where i: "py_index g r = Some i" and j: "py_index (g ! i) c = Some j"
    and g': "g' = g[i := (g ! i)[j := f (g ! i ! j)]]"
    by (auto simp: grid_upd_def split: option.splits)
  have pi: "py_index g' r = Some i"
    using i py_index_length_cong [OF grid_upd_shape(1) [OF assms], of r] by simp
  have pj: "py_index (g' ! i) c = Some j"
    using j py_index_length_cong [OF grid_upd_shape(2) [OF assms], of i c] by simp
  have "g' ! i ! j = f (g ! i ! j)"
    using py_index_less [OF i] py_index_less [OF j] by (simp add: g')
  then show ?thesis using i j pi pj by (simp add: grid_get_def)
qed

lemma grid_upd_id_iff:
  assumes "grid_upd g r c f = Inr g'" and "grid_get g r c = Inr n"
  shows "g' = g \<longleftrightarrow> f n = n"
proof -
  from assms(1) obtain i j where i: "py_index g r = Some i" and j: "py_index (g ! i) c = Some j"
    and g': "g' = g[i := (g ! i)[j := f (g ! i ! j)]]"
    by (auto simp: grid_upd_def split: option.splits)
  have n: "n = g ! i ! j" using assms(2) i j by (simp add: grid_get_def)
  have il: "i < length g" and jl: "j < length (g ! i)"
    using py_index_less [OF i] py_index_less [OF j] by simp_all
  show ?thesis
  proof
    assume "g' = g"
    then have "g' ! i ! j = g ! i ! j" by simp
    then show "f n = n" using il jl by (simp add: g' n)
  next
    assume "f n = n"
    then have "(g ! i)[j := f (g ! i ! j)] = g ! i" by (simp add: n)
    then show "g' = g" by (simp add: g')
  qed
qed

lemma solver_maze_update_id_iff:
  "s\<lparr>solver_maze := (solver_maze s)\<lparr>maze := mz\<rparr>\<rparr> = s \<longleftrightarrow> mz = maze (solver_maze s)"
proof
  assume "s\<lparr>solver_maze := (solver_maze s)\<lparr>maze := mz\<rparr>\<rparr> = s"
  then have "solver_maze (s\<lparr>solver_maze := (solver_maze s)\<lparr>maze := mz\<rparr>\<rparr>) = solver_maze s" by simp
  then have "maze ((solver_maze s)\<lparr>maze := mz\<rparr>) = maze (solver_maze s)" by simp
  then show "mz = maze (solver_maze s)" by simp
next
  assume "mz = maze (solver_maze s)"
  then show "s\<lparr>solver_maze := (solver_maze s)\<lparr>maze := mz\<rparr>\<rparr> = s" by simp
qed

lemma A_star_error_state: "A_star s row col = (Inl e, s') \<Longrightarrow> s' = s"
  by (auto simp: A_star_def split: sum.splits option.splits prod.splits)

lemma find_move_error: "find_move s row col = (Inl e, s') \<Longrightarrow> s' = s \<and> solver s = ''A*'' \<and> A_star s row col = (Inl e, s)"
  by (auto simp: find_move_def split: if_splits dest: A_star_error_state)

lemma NoAvailableMove_neq: "NoAvailableMove \<noteq> IndexError" "NoAvailableMove \<noteq> TypeError"
  by (simp_all add: NoAvailableMove_def)

definition mark_visited :: "MazeSolver \<Rightarrow> MazeNode list list \<Rightarrow> MazeSolver" where
  "mark_visited s mz = s\<lparr>solver_maze := (solver_maze s)\<lparr>maze := mz\<rparr>\<rparr>"

lemma solve_step_cases:
  assumes "current_pos s = Some (row, col)" and "Some (row, col) \<noteq> end_node (solver_maze s)"
    and "grid_upd (maze (solver_maze s)) row col (\<lambda>n. n\<lparr>visited := True\<rparr>) = Inr mz"
  shows "solve_step s =
           (case find_move (mark_visited s mz) row col of
              (Inl e, s') \<Rightarrow> (Inl e, s')
            | (Inr u, s') \<Rightarrow> (Inr False, s'))"
  using assms by (simp add: solve_step_def mark_visited_def)

lemma solve_step_raise_NoAvailableMove:
  assumes "solve_step s = (Inl NoAvailableMove, s')"
  obtains row col mz where "current_pos s = Some (row, col)"
    "Some (row, col) \<noteq> end_node (solver_maze s)"
    "grid_upd (maze (solver_maze s)) row col (\<lambda>n. n\<lparr>visited := True\<rparr>) = Inr mz"
    "s' = mark_visited s mz" "solver s = ''A*''"
    "A_star (mark_visited s mz) row col = (Inl NoAvailableMove, mark_visited s mz)"
proof -
  from assms have ne: "current_pos s \<noteq> end_node (solver_maze s)"
    by (auto simp: solve_step_def)
  with assms obtain row col where cp: "current_pos s = Some (row, col)"
    by (cases "current_pos s") (auto simp: solve_step_def NoAvailableMove_def)
  from assms ne cp obtain mz where
    up: "grid_upd (maze (solver_maze s)) row col (\<lambda>n. n\<lparr>visited := True\<rparr>) = Inr mz"
    by (cases "grid_upd (maze (solver_maze s)) row col (\<lambda>n. n\<lparr>visited := True\<rparr>)")
       (auto simp: solve_step_def NoAvailableMove_def dest: grid_upd_error)
  from ne cp have ne': "Some (row, col) \<noteq> end_node (solver_maze s)" by simp
  from assms have fm: "find_move (mark_visited s mz) row col = (Inl NoAvailableMove, s')"
    unfolding solve_step_cases [OF cp ne' up]
    by (auto split: prod.splits sum.splits)
  from find_move_error [OF fm] have "s' = mark_visited s mz" "solver s = ''A*''"
    "A_star (mark_visited s mz) row col = (Inl NoAvailableMove, mark_visited s mz)"
    by (simp_all add: mark_visited_def)
  with cp ne' up show ?thesis by (rule that)
qed

definition walled_failed :: MazeSolver where
  "walled_failed =
     \<lparr>solver_maze = walled\<lparr>maze := [[start_cell\<lparr>visited := True\<rparr>, wall_cell, end_cell]]\<rparr>,
      current_pos = Some (0, 0), facing = 0, solver = ''A*''\<rparr>"

lemmas solver_eval =
  solve_step_def find_move_def A_star_def get_available_directions_def dirs4_def
  calculate_distance_to_end_def MazeSolver_init_def NoAvailableMove_def

lemma walled_first_step:
  "solve_step (MazeSolver_init walled ''A*'') = (Inl NoAvailableMove, walled_failed)"
  by (simp add: solver_eval grid_eval walled_def walled_failed_def)

lemma walled_second_step:
  "solve_step walled_failed = (Inl NoAvailableMove, walled_failed)"
  by (simp add: solver_eval grid_eval walled_def walled_failed_def)

text \<open>
  C10 (as stated, refuted). The state left by a failed step on the grid \<open>" # "\<close> (start at
  the left cell, end at the right one) is one from which the step raises again, and this time
  the state after the failed step is the state before it: the flag was already set.
\<close>

theorem failed_step_state_can_be_unchanged:
  "solve_step (MazeSolver_init walled ''A*'') = (Inl NoAvailableMove, walled_failed) \<and>
   solve_step walled_failed = (Inl NoAvailableMove, walled_failed)"
  by (simp add: solver_eval grid_eval walled_def walled_failed_def)

text \<open>
  C10 (amended). Whenever \<open>solve_step\<close> raises the no-available-move error, the write of the
  current cell's visited flag has already happened: the solver the caller observes is the one
  before the call with exactly that flag set to \<open>True\<close> (position, strategy and every other
  cell unchanged). The observed state differs from the state before the call exactly when
  the cell had not been visited yet; calling again raises the same error and changes nothing.
\<close>

theorem failed_step_keeps_visited_write:
  assumes "solve_step s = (Inl NoAvailableMove, s')"
  shows "\<exists>row col n mz.
           current_pos s = Some (row, col) \<and>
           grid_get (maze (solver_maze s)) row col = Inr n \<and>
           grid_upd (maze (solver_maze s)) row col (\<lambda>n. n\<lparr>visited := True\<rparr>) = Inr mz \<and>
           s' = s\<lparr>solver_maze := (solver_maze s)\<lparr>maze := mz\<rparr>\<rparr> \<and>
           grid_get (maze (solver_maze s')) row col = Inr (n\<lparr>visited := True\<rparr>) \<and>
           (s' \<noteq> s) = (\<not> visited n) \<and>
           solve_step s' = (Inl NoAvailableMove, s')"
proof -
  from assms obtain row col mz where cp: "current_pos s = Some (row, col)"
    and ne: "Some (row, col) \<noteq> end_node (solver_maze s)"
    and up: "grid_upd (maze (solver_maze s)) row col (\<lambda>n. n\<lparr>visited := True\<rparr>) = Inr mz"
    and s': "s' = mark_visited s mz" and sv: "solver s = ''A*''"
    and A: "A_star (mark_visited s mz) row col = (Inl NoAvailableMove, mark_visited s mz)"
    by (rule solve_step_raise_NoAvailableMove)
  from grid_get_upd [OF up] obtain n where
    g: "grid_get (maze (solver_maze s)) row col = Inr n" and
    g': "grid_get mz row col = Inr (n\<lparr>visited := True\<rparr>)"
    by blast
  have diff: "(s' \<noteq> s) = (\<not> visited n)"
  proof -
    have "(s' = s) = (mz = maze (solver_maze s))"
      unfolding s' mark_visited_def by (rule solver_maze_update_id_iff)
    also have "\<dots> = (n\<lparr>visited := True\<rparr> = n)"
      by (rule grid_upd_id_iff [OF up g])
    also have "\<dots> = visited n"
    proof
      assume "n\<lparr>visited := True\<rparr> = n"
      then have "visited (n\<lparr>visited := True\<rparr>) = visited n" by simp
      then show "visited n" by simp
    next
      assume "visited n" then show "n\<lparr>visited := True\<rparr> = n" by simp
    qed
    finally show ?thesis by simp
  qed
  have again: "solve_step s' = (Inl NoAvailableMove, s')"
  proof -
    have up': "grid_upd mz row col (\<lambda>n. n\<lparr>visited := True\<rparr>) = Inr mz"
    proof -
      from grid_upd_again [OF up] obtain mz' where
        u: "grid_upd mz row col (\<lambda>n. n\<lparr>visited := True\<rparr>) = Inr mz'" by blast
      have "mz' = mz \<longleftrightarrow> (n\<lparr>visited := True\<rparr>)\<lparr>visited := True\<rparr> = n\<lparr>visited := True\<rparr>"
        by (rule grid_upd_id_iff [OF u g'])
      then show ?thesis using u by simp
    qed
    have cp': "current_pos s' = Some (row, col)"
      and ne': "Some (row, col) \<noteq> end_node (solver_maze s')"
      and up'': "grid_upd (maze (solver_maze s')) row col (\<lambda>n. n\<lparr>visited := True\<rparr>) = Inr mz"
      and mv: "mark_visited s' mz = s'" and sv': "solver s' = ''A*''"
      using cp ne up' sv by (simp_all add: s' mark_visited_def)
    show ?thesis
      unfolding solve_step_cases [OF cp' ne' up''] mv
      using A sv' by (simp add: find_move_def s')
  qed
  show ?thesis
    using cp g up s' g' diff again by (auto simp: mark_visited_def)
qed

theorem failed_step_keeps_visited_write_witness:
  "solve_step (MazeSolver_init walled ''A*'') = (Inl NoAvailableMove, walled_failed) \<and>
   walled_failed \<noteq> MazeSolver_init walled ''A*'' \<and>
   grid_get (maze (solver_maze walled_failed)) 0 0 = Inr (start_cell\<lparr>visited := True\<rparr>)"
proof -
  have st: "solve_step (MazeSolver_init walled ''A*'') = (Inl NoAvailableMove, walled_failed)"
    by (rule walled_first_step)
  have cp: "current_pos (MazeSolver_init walled ''A*'') = Some (0, 0)"
    and g: "grid_get (maze (solver_maze (MazeSolver_init walled ''A*''))) 0 0 = Inr start_cell"
    by (simp_all add: MazeSolver_init_def walled_def grid_eval)
  from failed_step_keeps_visited_write [OF st] cp g st show ?thesis
    by (auto simp: start_cell_def)
qed

lemma solve_step_other_strategy:
  assumes "solver s \<noteq> ''A*''" and "current_pos s = Some (row, col)"
    and "Some (row, col) \<noteq> end_node (solver_maze s)"
    and "grid_upd (maze (solver_maze s)) row col (\<lambda>n. n\<lparr>visited := True\<rparr>) = Inr mz"
  shows "solve_step s = (Inr False, mark_visited s mz)"
  unfolding solve_step_cases [OF assms(2,3,4)]
  using assms(1) by (simp add: find_move_def mark_visited_def)

lemma solve_loop_other_strategy:
  assumes "solver s \<noteq> ''A*''" and "current_pos s = Some (row, col)"
    and "Some (row, col) \<noteq> end_node (solver_maze s)"
    and "grid_upd (maze (solver_maze s)) row col (\<lambda>n. n\<lparr>visited := True\<rparr>) = Inr mz"
  shows "solve_loop n s = (n, Inr False)"
  using assms
proof (induction n arbitrary: s mz)
  case 0
  then show ?case by simp
next
  case (Suc n)
  let ?s' = "mark_visited s mz"
  have st: "solve_step s = (Inr False, ?s')"
    using Suc.prems by (rule solve_step_other_strategy)
  from grid_upd_again [OF Suc.prems(4)] obtain mz' where
    up: "grid_upd mz row col (\<lambda>n. n\<lparr>visited := True\<rparr>) = Inr mz'" by blast
  have "solve_loop n ?s' = (n, Inr False)"
  proof (rule Suc.IH)
    show "solver ?s' \<noteq> ''A*''" using Suc.prems(1) by (simp add: mark_visited_def)
    show "current_pos ?s' = Some (row, col)" using Suc.prems(2) by (simp add: mark_visited_def)
    show "Some (row, col) \<noteq> end_node (solver_maze ?s')"
      using Suc.prems(3) by (simp add: mark_visited_def)
    show "grid_upd (maze (solver_maze ?s')) row col (\<lambda>n. n\<lparr>visited := True\<rparr>) = Inr mz'"
      using up by (simp add: mark_visited_def)
  qed
  then show ?case using st by simp
qed

text \<open>
  C8 (as stated, refuted). Constructing a solver with the strategy \<open>"dijkstra"\<close> succeeds and
  stores the string; its first step on the two-cell corridor marks the start cell visited,
  does not move and returns \<open>False\<close>.
\<close>

theorem unknown_strategy_accepted:
  "MazeSolver_init corridor ''dijkstra'' =
     \<lparr>solver_maze = corridor, current_pos = Some (0, 0), facing = 0, solver = ''dijkstra''\<rparr> \<and>
   solve_step (MazeSolver_init corridor ''dijkstra'') =
     (Inr False,
      \<lparr>solver_maze = corridor\<lparr>maze := [[start_cell\<lparr>visited := True\<rparr>, end_cell]]\<rparr>,
       current_pos = Some (0, 0), facing = 0, solver = ''dijkstra''\<rparr>)"
  by (simp add: solver_eval grid_eval corridor_def)

text \<open>
  C8 (amended). The constructor accepts every strategy string and stores it unchecked; there
  is no failure at construction time. With a strategy other than \<open>"A*"\<close>, each step taken
  away from the end position only sets the current cell's visited flag, leaves the position
  where it is and returns \<open>False\<close>, so the driver's loop makes any number \<open>n\<close> of calls
  without ever being solved.
\<close>

theorem unknown_strategy_is_silent_noop:
  "MazeSolver_init mz strategy =
     \<lparr>solver_maze = mz, current_pos = start_node mz, facing = 0, solver = strategy\<rparr> \<and>
   (solver s \<noteq> ''A*'' \<and> current_pos s = Some (row, col) \<and>
    Some (row, col) \<noteq> end_node (solver_maze s) \<and>
    grid_upd (maze (solver_maze s)) row col (\<lambda>n. n\<lparr>visited := True\<rparr>) = Inr g \<longrightarrow>
      solve_step s = (Inr False, s\<lparr>solver_maze := (solver_maze s)\<lparr>maze := g\<rparr>\<rparr>) \<and>
      solve_loop n s = (n, Inr False))"
  using solve_step_other_strategy [of s row col g] solve_loop_other_strategy [of s row col g n]
  by (simp add: MazeSolver_init_def mark_visited_def)

theorem unknown_strategy_is_silent_noop_witness:
  "solver (MazeSolver_init corridor ''dijkstra'') \<noteq> ''A*'' \<and>
   current_pos (MazeSolver_init corridor ''dijkstra'') = Some (0, 0) \<and>
   Some (0, 0) \<noteq> end_node (solver_maze (MazeSolver_init corridor ''dijkstra'')) \<and>
   grid_upd (maze (solver_maze (MazeSolver_init corridor ''dijkstra''))) 0 0 (\<lambda>n. n\<lparr>visited := True\<rparr>)
     = Inr [[start_cell\<lparr>visited := True\<rparr>, end_cell]] \<and>
   solve_loop 1000 (MazeSolver_init corridor ''dijkstra'') = (1000, Inr False)"
  using unknown_strategy_is_silent_noop [of corridor "''dijkstra''"
      "MazeSolver_init corridor ''dijkstra''" 0 0 "[[start_cell\<lparr>visited := True\<rparr>, end_cell]]" 1000]
  by (simp add: MazeSolver_init_def corridor_def grid_eval)

text \<open>
  The position a valid Python index \<open>i\<close> denotes in a list of length \<open>n\<close>, and the grid with
  one cell rewritten.
\<close>

definition resolve :: "int \<Rightarrow> int \<Rightarrow> nat" where
  "resolve n i = nat (if i < 0 then n + i else i)"

definition cell_write :: "'a list list \<Rightarrow> nat \<Rightarrow> nat \<Rightarrow> ('a \<Rightarrow> 'a) \<Rightarrow> 'a list list" where
  "cell_write g i j f = g[i := (g ! i)[j := f (g ! i ! j)]]"

lemma py_index_resolves:
  "- int (length xs) \<le> i \<Longrightarrow> i < int (length xs) \<Longrightarrow>
     py_index xs i = Some (resolve (int (length xs)) i)"
  by (simp add: py_index_def resolve_def)

lemma py_index_fails:
  "i < - int (length xs) \<or> int (length xs) \<le> i \<Longrightarrow> py_index xs i = None"
  by (auto simp: py_index_def)

lemma resolve_less: "- n \<le> i \<Longrightarrow> i < n \<Longrightarrow> int (resolve n i) < n"
  by (simp add: resolve_def)

lemma wf_maze_row_length:
  "wf_maze m \<Longrightarrow> int k < rows m \<Longrightarrow> int (length (maze m ! k)) = cols m"
  by (simp add: wf_maze_def)

lemma wf_grid_upd_resolves:
  assumes "wf_maze m" "- rows m \<le> row" "row < rows m" "- cols m \<le> col" "col < cols m"
  shows "grid_upd (maze m) row col f =
           Inr (cell_write (maze m) (resolve (rows m) row) (resolve (cols m) col) f)"
proof -
  have r: "rows m = int (length (maze m))" using assms(1) by (simp add: wf_maze_def)
  have pi: "py_index (maze m) row = Some (resolve (rows m) row)"
    using assms(2,3) unfolding r by (rule py_index_resolves)
  have "int (length (maze m ! resolve (rows m) row)) = cols m"
    using assms(1) resolve_less [OF assms(2,3)] by (rule wf_maze_row_length)
  then have "py_index (maze m ! resolve (rows m) row) col = Some (resolve (cols m) col)"
    using py_index_resolves [of "maze m ! resolve (rows m) row" col] assms(4,5) by simp
  with pi show ?thesis by (simp add: grid_upd_def cell_write_def)
qed

lemma wf_grid_upd_fails:
  assumes "wf_maze m" "row < - rows m \<or> rows m \<le> row \<or> col < - cols m \<or> cols m \<le> col"
  shows "grid_upd (maze m) row col f = Inl IndexError"
proof (cases "row < - rows m \<or> rows m \<le> row")
  case True
  have r: "rows m = int (length (maze m))" using assms(1) by (simp add: wf_maze_def)
  have "py_index (maze m) row = None"
    using True unfolding r by (rule py_index_fails)
  then show ?thesis by (simp add: grid_upd_def)
next
  case False
  then have rr: "- rows m \<le> row" "row < rows m" by simp_all
  have r: "rows m = int (length (maze m))" using assms(1) by (simp add: wf_maze_def)
  have pi: "py_index (maze m) row = Some (resolve (rows m) row)"
    using rr unfolding r by (rule py_index_resolves)
  have len: "int (length (maze m ! resolve (rows m) row)) = cols m"
    using assms(1) resolve_less [OF rr] by (rule wf_maze_row_length)
  from False assms(2) have "col < - cols m \<or> cols m \<le> col" by simp
  then have "py_index (maze m ! resolve (rows m) row) col = None"
    using py_index_fails [of col "maze m ! resolve (rows m) row"] len by simp
  with pi show ?thesis by (simp add: grid_upd_def)
qed

lemma resolve_nonneg: "0 \<le> i \<Longrightarrow> resolve n i = nat i"
  by (simp add: resolve_def)



text \<open>
  C9 (defect of the code). The claim asks that an out-of-extent coordinate is skipped
  silently. \<open>set_start\<close> and \<open>set_end\<close> do test the bounds, as \<open>get_available_directions\<close>
  and \<open>calculate_distance_to_end\<close> do before they touch a cell, but only after the cell
  write: on the one-cell grid the coordinates \<open>(1, 0)\<close> and \<open>(0, 1)\<close>, outside the extents,
  make the calls raise \<open>IndexError\<close> at that write instead of returning.
\<close>

theorem out_of_range_start_end_raises:
  "set_start (Maze_init ['' '']) 1 0 = Inl IndexError \<and>
   set_end (Maze_init ['' '']) 0 1 = Inl IndexError"
  by (simp add: grid_eval)

section \<open>The grid as a graph\<close>

text \<open>
  A cell is open when it is inside the grid and traversable. The neighbours of a position
  are the open cells one step right, down, left or up of it, in this order. A walk from \<open>p\<close>
  is a list of cells, each a neighbour of the one before (the first of \<open>p\<close>): every cell a
  walk enters is open, the cell it starts from is not tested. A path to the end is a walk
  whose last cell (or \<open>p\<close> itself for the empty walk) is the recorded end position.
\<close>

definition is_open :: "Maze \<Rightarrow> pos \<Rightarrow> bool" where
  "is_open m p \<longleftrightarrow>
     0 \<le> fst p \<and> fst p < rows m \<and> 0 \<le> snd p \<and> snd p < cols m \<and>
     traversable (maze m ! nat (fst p) ! nat (snd p))"

definition nbrs :: "Maze \<Rightarrow> pos \<Rightarrow> pos list" where
  "nbrs m p = filter (is_open m) (map (add_tuples p) dirs4)"

fun walk :: "Maze \<Rightarrow> pos \<Rightarrow> pos list \<Rightarrow> bool" where
  "walk m p [] = True"
| "walk m p (x # xs) = (x \<in> set (nbrs m p) \<and> walk m x xs)"

definition path_to_end :: "Maze \<Rightarrow> pos \<Rightarrow> pos list \<Rightarrow> bool" where
  "path_to_end m p ws \<longleftrightarrow> walk m p ws \<and> Some (last (p # ws)) = end_node m"

definition succs :: "Maze \<Rightarrow> pos set \<Rightarrow> pos \<Rightarrow> nat \<Rightarrow> queue" where
  "succs m vis p d = map (\<lambda>x. (fst x, snd x, d + 1)) (filter (\<lambda>x. x \<notin> vis) (nbrs m p))"

lemma wf_grid_get:
  assumes "wf_maze m" "0 \<le> r" "r < rows m" "0 \<le> c" "c < cols m"
  shows "grid_get (maze m) r c = Inr (maze m ! nat r ! nat c)"
proof -
  have rl: "rows m = int (length (maze m))" using assms(1) by (simp add: wf_maze_def)
  have pi: "py_index (maze m) r = Some (nat r)"
    using assms(2,3) unfolding rl by (rule py_index_in_range)
  have "int (nat r) < rows m" using assms(2,3) by simp
  then have "int (length (maze m ! nat r)) = cols m"
    using assms(1) wf_maze_row_length by blast
  then have "py_index (maze m ! nat r) c = Some (nat c)"
    using py_index_in_range [of c "maze m ! nat r"] assms(4,5) by simp
  with pi show ?thesis by (simp add: grid_get_def)
qed

lemma wf_grid_get_open:
  assumes "wf_maze m" "0 \<le> r" "r < rows m" "0 \<le> c" "c < cols m"
  shows "\<exists>n. grid_get (maze m) r c = Inr n \<and> traversable n = is_open m (r, c)"
  using wf_grid_get [OF assms] assms(2-5) by (simp add: is_open_def)

lemma not_open_outside:
  "\<not> (0 \<le> r \<and> r < rows m \<and> 0 \<le> c \<and> c < cols m) \<Longrightarrow> \<not> is_open m (r, c)"
  by (auto simp: is_open_def)

lemma enqueue_loop_wf:
  assumes "wf_maze m"
  shows "enqueue_loop m vis row col d ds q =
           Inr (q @ map (\<lambda>x. (fst x, snd x, d + 1))
                      (filter (\<lambda>x. x \<notin> vis) (filter (is_open m) (map (add_tuples (row, col)) ds))))"
proof (induction ds arbitrary: q)
  case Nil
  then show ?case by simp
next
  case (Cons a ds)
  obtain dr dc where a: "a = (dr, dc)" by (cases a)
  show ?case
  proof (cases "0 \<le> row + dr \<and> row + dr < rows m \<and> 0 \<le> col + dc \<and> col + dc < cols m")
    case True
    then obtain n where g: "grid_get (maze m) (row + dr) (col + dc) = Inr n"
      and t: "traversable n = is_open m (row + dr, col + dc)"
      using wf_grid_get_open [OF assms, of "row + dr" "col + dc"] by blast
    show ?thesis
      unfolding a using True g t by (simp add: Let_def Cons.IH)
  next
    case False
    from not_open_outside [OF False] have "\<not> is_open m (row + dr, col + dc)" .
    then show ?thesis
      unfolding a using False by (auto simp: Let_def Cons.IH)
  qed
qed

lemma enqueue_loop_succs:
  "wf_maze m \<Longrightarrow> enqueue_loop m vis row col d dirs4 q = Inr (q @ succs m vis (row, col) d)"
  by (simp add: enqueue_loop_wf succs_def nbrs_def)

lemma available_loop_wf:
  assumes "wf_maze m"
  shows "available_loop m row col ds acc =
           Inr (acc @ filter (\<lambda>d. is_open m (add_tuples (row, col) d)) ds)"
proof (induction ds arbitrary: acc)
  case Nil
  then show ?case by simp
next
  case (Cons a ds)
  obtain dr dc where a: "a = (dr, dc)" by (cases a)
  show ?case
  proof (cases "0 \<le> row + dr \<and> row + dr < rows m \<and> 0 \<le> col + dc \<and> col + dc < cols m")
    case True
    then obtain n where g: "grid_get (maze m) (row + dr) (col + dc) = Inr n"
      and t: "traversable n = is_open m (row + dr, col + dc)"
      using wf_grid_get_open [OF assms, of "row + dr" "col + dc"] by blast
    show ?thesis
      unfolding a using True g t by (simp add: Let_def Cons.IH)
  next
    case False
    from not_open_outside [OF False] have "\<not> is_open m (row + dr, col + dc)" .
    then show ?thesis
      unfolding a using False by (auto simp: Let_def Cons.IH)
  qed
qed

lemma get_available_directions_wf:
  "wf_maze m \<Longrightarrow>
     get_available_directions m row col = Inr (filter (\<lambda>d. is_open m (add_tuples (row, col) d)) dirs4)"
  by (simp add: get_available_directions_def available_loop_wf)

lemma bfs_wf_step:
  assumes "wf_maze m"
  shows "bfs m ((r, c, d) # q) vis =
           (if Some (r, c) = end_node m then Inr (enat d)
            else if (r, c) \<in> vis then bfs m q vis
            else bfs m (q @ succs m (insert (r, c) vis) (r, c) d) (insert (r, c) vis))"
  by (simp add: enqueue_loop_succs [OF assms])

lemma walk_append:
  "walk m p (xs @ ys) \<longleftrightarrow> walk m p xs \<and> walk m (last (p # xs)) ys"
  by (induction xs arbitrary: p) auto

lemma walk_suffix_from:
  assumes "walk m p0 ws" and "p \<in> set (p0 # ws)"
  shows "\<exists>ws'. walk m p ws' \<and> last (p # ws') = last (p0 # ws) \<and> p \<notin> set ws' \<and>
               set ws' \<subseteq> set ws \<and> length ws' \<le> length ws"
  using assms
proof (induction ws arbitrary: p0)
  case Nil
  then show ?case by (intro exI [of _ "[]"]) simp
next
  case (Cons x xs)
  show ?case
  proof (cases "p \<in> set (x # xs)")
    case True
    from Cons.prems(1) have "walk m x xs" by simp
    from Cons.IH [OF this True] obtain ws' where
      "walk m p ws'" "last (p # ws') = last (x # xs)" "p \<notin> set ws'"
      "set ws' \<subseteq> set xs" "length ws' \<le> length xs" by blast
    then show ?thesis by (intro exI [of _ ws']) auto
  next
    case False
    with Cons.prems(2) have "p = p0" by simp
    with False Cons.prems(1) show ?thesis by (intro exI [of _ "x # xs"]) simp
  qed
qed

section \<open>Correctness of the breadth-first search\<close>

definition reach :: "Maze \<Rightarrow> pos \<Rightarrow> pos \<Rightarrow> nat \<Rightarrow> bool" where
  "reach m s p d \<longleftrightarrow> (\<exists>ws. walk m s ws \<and> length ws = d \<and> last (s # ws) = p)"

definition qdist :: "int \<times> int \<times> nat \<Rightarrow> nat" where
  "qdist x = snd (snd x)"

definition qcell :: "int \<times> int \<times> nat \<Rightarrow> pos" where
  "qcell x = (fst x, fst (snd x))"

definition qsorted :: "queue \<Rightarrow> bool" where
  "qsorted q \<longleftrightarrow> sorted (map qdist q) \<and> (\<forall>x \<in> set q. \<forall>y \<in> set q. qdist y \<le> qdist x + 1)"

lemma reach_step: "reach m s p d \<Longrightarrow> x \<in> set (nbrs m p) \<Longrightarrow> reach m s x (Suc d)"
  unfolding reach_def
proof (elim exE conjE)
  fix ws assume "walk m s ws" "length ws = d" "last (s # ws) = p" "x \<in> set (nbrs m p)"
  then have "walk m s (ws @ [x]) \<and> length (ws @ [x]) = Suc d \<and> last (s # ws @ [x]) = x"
    by (simp add: walk_append)
  then show "\<exists>ws. walk m s ws \<and> length ws = Suc d \<and> last (s # ws) = x" by blast
qed

lemma succs_set:
  "x \<in> set (succs m vis p d) \<longleftrightarrow> qcell x \<in> set (nbrs m p) \<and> qcell x \<notin> vis \<and> qdist x = d + 1"
proof -
  obtain a b k where x: "x = (a, b, k)" by (cases x)
  have "x \<in> set (succs m vis p d) \<longleftrightarrow> (\<exists>y. y \<in> set (nbrs m p) \<and> y \<notin> vis \<and> x = (fst y, snd y, d + 1))"
    unfolding succs_def set_map set_filter image_iff by blast
  also have "\<dots> \<longleftrightarrow> (a, b) \<in> set (nbrs m p) \<and> (a, b) \<notin> vis \<and> k = d + 1"
    unfolding x by auto
  finally show ?thesis by (simp add: x qcell_def qdist_def)
qed

lemma qsorted_tail: "qsorted (x # q) \<Longrightarrow> qsorted q"
  by (simp add: qsorted_def)

lemma qsorted_head_le: "qsorted (x # q) \<Longrightarrow> y \<in> set q \<Longrightarrow> qdist x \<le> qdist y \<and> qdist y \<le> qdist x + 1"
  by (simp add: qsorted_def)

lemma qsorted_push:
  assumes "qsorted (x # q)" and "\<forall>y \<in> set new. qdist y = qdist x + 1"
  shows "qsorted (q @ new)"
proof -
  have rng: "qdist x \<le> qdist y \<and> qdist y \<le> qdist x + 1" if "y \<in> set (q @ new)" for y
  proof (cases "y \<in> set q")
    case True
    then show ?thesis by (rule qsorted_head_le [OF assms(1)])
  next
    case False
    with that have "y \<in> set new" by simp
    with assms(2) show ?thesis by simp
  qed
  have "sorted (map qdist q)" using assms(1) by (simp add: qsorted_def)
  moreover have "sorted (map qdist new)"
    using assms(2) by (simp add: sorted_wrt_iff_nth_less sorted_wrt_map)
  ultimately have "sorted (map qdist (q @ new))"
    using rng assms(2) by (auto simp: sorted_append)
  moreover have "qdist z \<le> qdist y + 1" if "y \<in> set (q @ new)" "z \<in> set (q @ new)" for y z
    using rng [OF that(1)] rng [OF that(2)] by simp
  ultimately show ?thesis unfolding qsorted_def by blast
qed

lemma bfs_no_error:
  assumes "wf_maze m"
  shows "\<exists>x. bfs m q vis = Inr x"
  using assms
proof (induction m q vis rule: bfs.induct)
  case (1 m vis)
  then show ?case by simp
next
  case (2 m row col distance q vis)
  note wf = 2(3)
  note enq = enqueue_loop_succs [OF wf]
  show ?case
  proof (cases "Some (row, col) = end_node m")
    case True
    then show ?thesis by simp
  next
    case ne: False
    show ?thesis
    proof (cases "(row, col) \<in> vis")
      case True
      with ne 2(1) [OF ne True wf] show ?thesis by simp
    next
      case False
      from 2(2) [OF ne False enq wf] ne False show ?thesis
        by (simp add: enq)
    qed
  qed
qed

lemma bfs_sound:
  assumes "wf_maze m" and "\<forall>x \<in> set q. reach m s (qcell x) (qdist x)"
    and "bfs m q vis = Inr (enat n)"
  shows "\<exists>e. Some e = end_node m \<and> reach m s e n"
  using assms
proof (induction m q vis rule: bfs.induct)
  case (1 m vis)
  then show ?case by simp
next
  case (2 m row col distance q vis)
  note wf = 2(3)
  note enq = enqueue_loop_succs [OF wf]
  have hd: "reach m s (row, col) distance"
    using 2(4) by (simp add: qcell_def qdist_def)
  have tl: "\<forall>x \<in> set q. reach m s (qcell x) (qdist x)"
    using 2(4) by simp
  show ?case
  proof (cases "Some (row, col) = end_node m")
    case True
    with 2(5) have "n = distance" by simp
    with True hd show ?thesis by blast
  next
    case ne: False
    show ?thesis
    proof (cases "(row, col) \<in> vis")
      case True
      with ne 2(5) have "bfs m q vis = Inr (enat n)" by simp
      from 2(1) [OF ne True wf tl this] show ?thesis .
    next
      case False
      let ?q' = "q @ succs m (insert (row, col) vis) (row, col) distance"
      from ne False 2(5) have r: "bfs m ?q' (insert (row, col) vis) = Inr (enat n)"
        by (simp add: enq)
      have "\<forall>x \<in> set ?q'. reach m s (qcell x) (qdist x)"
      proof
        fix x assume "x \<in> set ?q'"
        then consider "x \<in> set q" | "x \<in> set (succs m (insert (row, col) vis) (row, col) distance)"
          by auto
        then show "reach m s (qcell x) (qdist x)"
        proof cases
          case 1
          with tl show ?thesis by blast
        next
          case 2
          then have "qcell x \<in> set (nbrs m (row, col))" "qdist x = Suc distance"
            by (simp_all add: succs_set)
          with reach_step [OF hd] show ?thesis by simp
        qed
      qed
      from 2(2) [OF ne False enq wf this r] show ?thesis .
    qed
  qed
qed

declare bfs.simps [simp del]

definition promising :: "Maze \<Rightarrow> pos set \<Rightarrow> nat \<Rightarrow> int \<times> int \<times> nat \<Rightarrow> bool" where
  "promising m vis n x \<longleftrightarrow>
     (\<exists>ws. path_to_end m (qcell x) ws \<and> set (qcell x # ws) \<inter> vis = {} \<and> qdist x + length ws \<le> n)"

lemma bfs_complete:
  assumes "wf_maze m" and "qsorted q" and "\<exists>x \<in> set q. promising m vis n x"
  shows "\<exists>k \<le> n. bfs m q vis = Inr (enat k)"
  using assms
proof (induction m q vis rule: bfs.induct)
  case (1 m vis)
  then show ?case by simp
next
  case (2 m row col distance q vis)
  note wf = 2(3)
  note enq = enqueue_loop_succs [OF wf]
  note step = bfs_wf_step [OF wf, of row col distance q vis]
  let ?h = "(row, col, distance)"
  note qs = 2(4)
  from 2(5) obtain x ws where x: "x \<in> set (?h # q)"
    and p: "path_to_end m (qcell x) ws" and av: "set (qcell x # ws) \<inter> vis = {}"
    and le: "qdist x + length ws \<le> n"
    unfolding promising_def by blast
  have dle: "distance \<le> qdist x"
  proof (cases "x = ?h")
    case True
    then show ?thesis by (simp add: qdist_def)
  next
    case False
    with x have "x \<in> set q" by simp
    from qsorted_head_le [OF qs this] show ?thesis by (simp add: qdist_def)
  qed
  show ?case
  proof (cases "Some (row, col) = end_node m")
    case True
    have "distance \<le> n" using dle le by simp
    with True show ?thesis unfolding step by simp
  next
    case ne: False
    show ?thesis
    proof (cases "(row, col) \<in> vis")
      case True
      have "x \<noteq> ?h"
      proof
        assume "x = ?h"
        then have "qcell x = (row, col)" by (simp add: qcell_def)
        with av True show False by auto
      qed
      with x have "x \<in> set q" by simp
      then have "\<exists>x \<in> set q. promising m vis n x"
        using p av le unfolding promising_def by blast
      from 2(1) [OF ne True wf qsorted_tail [OF qs] this] ne True show ?thesis
        unfolding step by simp
    next
      case False
      let ?vis' = "insert (row, col) vis"
      let ?new = "succs m ?vis' (row, col) distance"
      let ?q' = "q @ ?new"
      have qs': "qsorted ?q'"
      proof (rule qsorted_push [OF qs])
        show "\<forall>y \<in> set ?new. qdist y = qdist ?h + 1"
          by (simp add: succs_set qdist_def)
      qed
      have "\<exists>y \<in> set ?q'. promising m ?vis' n y"
      proof (cases "(row, col) \<in> set (qcell x # ws)")
        case notin: False
        then have "qcell x \<noteq> (row, col)" by auto
        then have "x \<noteq> ?h" by (auto simp: qcell_def)
        with x have "x \<in> set ?q'" by simp
        moreover have "set (qcell x # ws) \<inter> ?vis' = {}" using av notin by auto
        ultimately show ?thesis using p le unfolding promising_def by blast
      next
        case True
        from p have w: "walk m (qcell x) ws" and e: "Some (last (qcell x # ws)) = end_node m"
          by (simp_all add: path_to_end_def)
        from walk_suffix_from [OF w True] obtain ws' where
          w': "walk m (row, col) ws'" and l': "last ((row, col) # ws') = last (qcell x # ws)"
          and n': "(row, col) \<notin> set ws'" and s': "set ws' \<subseteq> set ws"
          and len': "length ws' \<le> length ws" by blast
        have "ws' \<noteq> []"
        proof
          assume "ws' = []"
          with l' e have "Some (row, col) = end_node m" by simp
          with ne show False by simp
        qed
        then obtain y ys where ws': "ws' = y # ys" by (cases ws') auto
        from w' ws' have ynb: "y \<in> set (nbrs m (row, col))" and wy: "walk m y ys" by simp_all
        have disj: "set (y # ys) \<inter> ?vis' = {}"
          using s' n' av ws' by auto
        then have "y \<notin> ?vis'" by auto
        let ?e = "(fst y, snd y, distance + 1)"
        have "?e \<in> set ?new"
          using ynb \<open>y \<notin> ?vis'\<close> by (simp add: succs_set qcell_def qdist_def)
        then have mem: "?e \<in> set ?q'" by simp
        have cell: "qcell ?e = y" by (simp add: qcell_def)
        have "path_to_end m y ys"
          using wy l' e ws' by (simp add: path_to_end_def)
        moreover have "qdist ?e + length ys \<le> n"
          using len' ws' dle le by (simp add: qdist_def)
        ultimately have "promising m ?vis' n ?e"
          unfolding promising_def cell using disj by blast
        with mem show ?thesis by blast
      qed
      from 2(2) [OF ne False enq wf qs' this] ne False show ?thesis
        unfolding step by simp
    qed
  qed
qed

text \<open>
  The value of the search, specified: the least number of steps of a path to the end, or
  \<open>\<infinity>\<close> when there is none.
\<close>

definition shortest :: "Maze \<Rightarrow> pos \<Rightarrow> enat" where
  "shortest m p =
     (if \<exists>ws. path_to_end m p ws then enat (LEAST n. \<exists>ws. path_to_end m p ws \<and> length ws = n)
      else \<infinity>)"

lemma shortest_le: "path_to_end m p ws \<Longrightarrow> shortest m p \<le> enat (length ws)"
proof -
  assume a: "path_to_end m p ws"
  then have "(LEAST n. \<exists>ws. path_to_end m p ws \<and> length ws = n) \<le> length ws"
    by (intro Least_le) blast
  with a show ?thesis unfolding shortest_def by auto
qed

lemma shortest_attained:
  "shortest m p = enat n \<Longrightarrow> \<exists>ws. path_to_end m p ws \<and> length ws = n"
proof -
  assume a: "shortest m p = enat n"
  then have ex: "\<exists>ws. path_to_end m p ws" unfolding shortest_def by (auto split: if_splits)
  then have "\<exists>k. \<exists>ws. path_to_end m p ws \<and> length ws = k" by blast
  from LeastI_ex [OF this] a ex show ?thesis unfolding shortest_def by simp
qed

lemma shortest_infinite: "shortest m p = \<infinity> \<longleftrightarrow> \<not> (\<exists>ws. path_to_end m p ws)"
  unfolding shortest_def by simp

lemma reach_origin: "reach m s s 0"
  unfolding reach_def by (rule exI [of _ "[]"]) simp

lemma promising_origin:
  assumes "path_to_end m (r, c) ws"
  shows "promising m {} (length ws) (r, c, 0)"
  unfolding promising_def
proof (rule exI [of _ ws], intro conjI)
  show "path_to_end m (qcell (r, c, 0)) ws" using assms by (simp add: qcell_def)
  show "set (qcell (r, c, 0) # ws) \<inter> {} = {}" by simp
  show "qdist (r, c, 0) + length ws \<le> length ws" by (simp add: qdist_def)
qed

lemma calculate_distance_shortest:
  assumes "wf_maze m"
  shows "calculate_distance_to_end m r c = Inr (shortest m (r, c))"
proof -
  let ?q = "[(r, c, 0 :: nat)]"
  from bfs_no_error [OF assms] obtain v where v: "bfs m ?q {} = Inr v" by blast
  have init: "\<forall>x \<in> set ?q. reach m (r, c) (qcell x) (qdist x)"
    using reach_origin [of m "(r, c)"] by (simp add: qcell_def qdist_def)
  have qs: "qsorted ?q" by (simp add: qsorted_def)
  have lower: "v \<le> enat (length ws)" if "path_to_end m (r, c) ws" for ws
  proof -
    have "\<exists>x \<in> set ?q. promising m {} (length ws) x"
      using promising_origin [OF that] by simp
    from bfs_complete [OF assms qs this] obtain k where
      k: "k \<le> length ws" "bfs m ?q {} = Inr (enat k)" by blast
    from k(2) v have "v = enat k" by simp
    with k(1) show ?thesis by simp
  qed
  have upper: "\<exists>ws. path_to_end m (r, c) ws \<and> length ws = k" if "v = enat k" for k
  proof -
    from v that have "bfs m ?q {} = Inr (enat k)" by simp
    from bfs_sound [OF assms init this] obtain e where e: "Some e = end_node m" "reach m (r, c) e k"
      by blast
    from e(2) obtain ws where "walk m (r, c) ws" "length ws = k" "last ((r, c) # ws) = e"
      unfolding reach_def by blast
    with e(1) have "path_to_end m (r, c) ws \<and> length ws = k"
      unfolding path_to_end_def by simp
    then show ?thesis by blast
  qed
  have "v = shortest m (r, c)"
  proof (cases v)
    case (enat k)
    from upper [OF enat] obtain ws where ws: "path_to_end m (r, c) ws" "length ws = k" by blast
    from shortest_le [OF ws(1)] ws(2) have "shortest m (r, c) \<le> enat k" by simp
    then obtain j where j: "shortest m (r, c) = enat j" and jk: "j \<le> k"
      by (cases "shortest m (r, c)") simp_all
    from shortest_attained [OF j] obtain ws' where ws': "path_to_end m (r, c) ws'" "length ws' = j"
      by blast
    from lower [OF ws'(1)] ws'(2) enat have "k \<le> j" by simp
    with jk have "j = k" by simp
    with j enat show ?thesis by simp
  next
    case infinity
    have "\<not> (\<exists>ws. path_to_end m (r, c) ws)"
    proof
      assume "\<exists>ws. path_to_end m (r, c) ws"
      then obtain ws where "path_to_end m (r, c) ws" by blast
      from lower [OF this] infinity show False by simp
    qed
    then have "shortest m (r, c) = \<infinity>" by (simp add: shortest_infinite)
    with infinity show ?thesis by simp
  qed
  with v show ?thesis unfolding calculate_distance_to_end_def by simp
qed

lemma nbrs_open: "x \<in> set (nbrs m p) \<Longrightarrow> is_open m x"
  by (simp add: nbrs_def)

lemma nbrs_adjacent:
  "x \<in> set (nbrs m p) \<Longrightarrow> \<bar>fst x - fst p\<bar> + \<bar>snd x - snd p\<bar> = 1"
proof -
  assume "x \<in> set (nbrs m p)"
  then have "x \<in> set (map (add_tuples p) dirs4)" by (simp add: nbrs_def)
  then obtain d where "d \<in> set dirs4" "x = add_tuples p d" by auto
  then show ?thesis by (cases p) (auto simp: dirs4_def)
qed

lemma walk_cells_open: "walk m p ws \<Longrightarrow> x \<in> set ws \<Longrightarrow> is_open m x"
proof (induction ws arbitrary: p)
  case Nil
  then show ?case by simp
next
  case (Cons y ys)
  from Cons.prems(1) have y: "y \<in> set (nbrs m p)" and w: "walk m y ys" by simp_all
  show ?case
  proof (cases "x = y")
    case True
    with y show ?thesis by (simp add: nbrs_open)
  next
    case False
    with Cons.prems(2) have "x \<in> set ys" by simp
    with w show ?thesis by (rule Cons.IH)
  qed
qed

lemma same_layout_visited:
  assumes "grid_upd (maze m) r c (\<lambda>n. n\<lparr>visited := v\<rparr>) = Inr g"
  shows "same_layout m (m\<lparr>maze := g\<rparr>)"
proof -
  have "same_walls (maze m) g"
    by (rule same_walls_upd [OF assms]) simp
  then show ?thesis by (simp add: same_layout_def)
qed

lemmas bfs_eval = bfs.simps calculate_distance_to_end_def dirs4_def





section \<open>Move selection\<close>

text \<open>
  The selection of \<open>A_star\<close> as a function of the distances \<open>D\<close> of the candidates: the
  running minimum is replaced only by a strictly smaller distance.
\<close>

fun pick :: "(pos \<Rightarrow> enat) \<Rightarrow> pos list \<Rightarrow> enat \<Rightarrow> pos option \<Rightarrow> enat \<times> pos option" where
  "pick D [] l b = (l, b)"
| "pick D (d # ds) l b = (if D d < l then pick D ds (D d) (Some d) else pick D ds l b)"

lemma pick_spec:
  "pick D ds l b = (l', b') \<Longrightarrow>
     (b' = b \<and> l' = l \<and> (\<forall>d \<in> set ds. l \<le> D d)) \<or>
     (\<exists>i < length ds. b' = Some (ds ! i) \<and> l' = D (ds ! i) \<and> l' < l \<and>
        (\<forall>j < i. l' < D (ds ! j)) \<and> (\<forall>j < length ds. l' \<le> D (ds ! j)))"
proof (induction ds arbitrary: l b)
  case Nil
  then show ?case by simp
next
  case (Cons d ds)
  show ?case
  proof (cases "D d < l")
    case True
    with Cons.prems have r: "pick D ds (D d) (Some d) = (l', b')" by simp
    from Cons.IH [OF r] show ?thesis
    proof (elim disjE exE conjE)
      assume a: "b' = Some d" "l' = D d" "\<forall>x \<in> set ds. D d \<le> D x"
      have "\<forall>j < length (d # ds). l' \<le> D ((d # ds) ! j)"
      proof (intro allI impI)
        fix j assume "j < length (d # ds)"
        then show "l' \<le> D ((d # ds) ! j)" using a(2,3) by (cases j) auto
      qed
      with a True have "0 < length (d # ds) \<and> b' = Some ((d # ds) ! 0) \<and> l' = D ((d # ds) ! 0) \<and> l' < l \<and>
        (\<forall>j < 0. l' < D ((d # ds) ! j)) \<and> (\<forall>j < length (d # ds). l' \<le> D ((d # ds) ! j))"
        by simp
      then show ?thesis by blast
    next
      fix i assume a: "i < length ds" "b' = Some (ds ! i)" "l' = D (ds ! i)" "l' < D d"
        "\<forall>j < i. l' < D (ds ! j)" "\<forall>j < length ds. l' \<le> D (ds ! j)"
      have 1: "\<forall>j < Suc i. l' < D ((d # ds) ! j)"
      proof (intro allI impI)
        fix j assume "j < Suc i"
        then show "l' < D ((d # ds) ! j)" using a(4,5) by (cases j) auto
      qed
      have 2: "\<forall>j < length (d # ds). l' \<le> D ((d # ds) ! j)"
      proof (intro allI impI)
        fix j assume "j < length (d # ds)"
        then show "l' \<le> D ((d # ds) ! j)" using a(4,6) by (cases j) auto
      qed
      have "l' < l" using a(4) True by simp
      with a 1 2 have "Suc i < length (d # ds) \<and> b' = Some ((d # ds) ! Suc i) \<and>
        l' = D ((d # ds) ! Suc i) \<and> l' < l \<and>
        (\<forall>j < Suc i. l' < D ((d # ds) ! j)) \<and> (\<forall>j < length (d # ds). l' \<le> D ((d # ds) ! j))"
        by simp
      then show ?thesis by blast
    qed
  next
    case False
    then have ld: "l \<le> D d" by simp
    from False Cons.prems have r: "pick D ds l b = (l', b')" by simp
    from Cons.IH [OF r] show ?thesis
    proof (elim disjE exE conjE)
      assume a: "b' = b" "l' = l" "\<forall>x \<in> set ds. l \<le> D x"
      with ld show ?thesis by simp
    next
      fix i assume a: "i < length ds" "b' = Some (ds ! i)" "l' = D (ds ! i)" "l' < l"
        "\<forall>j < i. l' < D (ds ! j)" "\<forall>j < length ds. l' \<le> D (ds ! j)"
      have ld': "l' < D d" using a(4) ld by simp
      have 1: "\<forall>j < Suc i. l' < D ((d # ds) ! j)"
      proof (intro allI impI)
        fix j assume "j < Suc i"
        then show "l' < D ((d # ds) ! j)" using ld' a(5) by (cases j) auto
      qed
      have 2: "\<forall>j < length (d # ds). l' \<le> D ((d # ds) ! j)"
      proof (intro allI impI)
        fix j assume "j < length (d # ds)"
        then show "l' \<le> D ((d # ds) ! j)" using ld' a(6) by (cases j) auto
      qed
      from a 1 2 have "Suc i < length (d # ds) \<and> b' = Some ((d # ds) ! Suc i) \<and>
        l' = D ((d # ds) ! Suc i) \<and> l' < l \<and>
        (\<forall>j < Suc i. l' < D ((d # ds) ! j)) \<and> (\<forall>j < length (d # ds). l' \<le> D ((d # ds) ! j))"
        by simp
      then show ?thesis by blast
    qed
  qed
qed

text \<open>
  The loop of \<open>A_star\<close> computes \<open>pick\<close> whenever every candidate's cell can be read and is
  traversable and its distance is \<open>D\<close>.
\<close>

lemma A_star_loop_pick:
  assumes "current_pos s = Some (row, col)"
    and "\<forall>d \<in> set ds. \<exists>n. grid_get (maze (solver_maze s)) (row + fst d) (col + snd d) = Inr n \<and> traversable n"
    and "\<forall>d \<in> set ds. calculate_distance_to_end (solver_maze s) (row + fst d) (col + snd d) = Inr (D d)"
  shows "A_star_loop s ds l b = Inr (pick D ds l b)"
  using assms(2,3)
proof (induction ds arbitrary: l b)
  case Nil
  then show ?case by simp
next
  case (Cons d ds)
  from Cons.prems(1) obtain n where
    g: "grid_get (maze (solver_maze s)) (row + fst d) (col + snd d) = Inr n" and t: "traversable n"
    by auto
  from Cons.prems(2) have
    c: "calculate_distance_to_end (solver_maze s) (row + fst d) (col + snd d) = Inr (D d)"
    by simp
  have ih: "A_star_loop s ds l' b' = Inr (pick D ds l' b')" for l' b'
    using Cons.prems by (intro Cons.IH) simp_all
  show ?case
    using assms(1) g t c by (simp add: add_tuples_eq Let_def ih)
qed

definition avail :: "Maze \<Rightarrow> pos \<Rightarrow> pos list" where
  "avail m p = filter (\<lambda>d. is_open m (add_tuples p d)) dirs4"

definition choice :: "Maze \<Rightarrow> pos \<Rightarrow> pos option" where
  "choice m p = snd (pick (\<lambda>d. shortest m (add_tuples p d)) (avail m p) \<infinity> None)"

lemma wf_maze_upd:
  assumes "wf_maze m" and "grid_upd (maze m) r c f = Inr g"
  shows "wf_maze (m\<lparr>maze := g\<rparr>)"
proof -
  have len: "length g = length (maze m)" using assms(2) by (rule grid_upd_shape(1))
  have "int (length x) = cols m" if "x \<in> set g" for x
  proof -
    from that obtain k where k: "k < length g" "x = g ! k" by (auto simp: in_set_conv_nth)
    have "length (g ! k) = length (maze m ! k)" using assms(2) by (rule grid_upd_shape(2))
    moreover have "int k < rows m" using k(1) len assms(1) by (simp add: wf_maze_def)
    ultimately show ?thesis using wf_maze_row_length [OF assms(1)] k(2) by simp
  qed
  then show ?thesis using assms(1) len by (simp add: wf_maze_def)
qed

lemma avail_same_layout:
  assumes "wf_maze m" "wf_maze m'" "same_layout m m'"
  shows "avail m' (row, col) = avail m (row, col)"
proof -
  have "get_available_directions m' row col = get_available_directions m row col"
    unfolding get_available_directions_def using assms(3) by (rule available_loop_same_layout)
  then show ?thesis
    by (simp add: get_available_directions_wf assms(1,2) avail_def)
qed

lemma shortest_same_layout:
  assumes "wf_maze m" "wf_maze m'" "same_layout m m'"
  shows "shortest m' (r, c) = shortest m (r, c)"
proof -
  have "calculate_distance_to_end m' r c = calculate_distance_to_end m r c"
    using assms(3) by (rule calculate_distance_same_layout)
  then show ?thesis by (simp add: calculate_distance_shortest assms(1,2))
qed

lemma choice_same_layout:
  assumes "wf_maze m" "wf_maze m'" "same_layout m m'"
  shows "choice m' (row, col) = choice m (row, col)"
proof -
  have "(\<lambda>d. shortest m' (add_tuples (row, col) d)) = (\<lambda>d. shortest m (add_tuples (row, col) d))"
  proof
    fix d show "shortest m' (add_tuples (row, col) d) = shortest m (add_tuples (row, col) d)"
      using shortest_same_layout [OF assms] by (simp add: add_tuples_eq)
  qed
  then show ?thesis by (simp add: choice_def avail_same_layout [OF assms])
qed

lemma A_star_wf:
  assumes "wf_maze (solver_maze s)" and "current_pos s = Some (row, col)"
  shows "A_star s row col =
           (case choice (solver_maze s) (row, col) of
              Some bm \<Rightarrow> (Inr (), s\<lparr>current_pos := Some (add_tuples (row, col) bm)\<rparr>)
            | None \<Rightarrow> (Inl NoAvailableMove, s))"
proof -
  let ?m = "solver_maze s"
  let ?D = "\<lambda>d. shortest ?m (add_tuples (row, col) d)"
  have av: "get_available_directions ?m row col = Inr (avail ?m (row, col))"
    by (simp add: get_available_directions_wf assms(1) avail_def)
  have cells: "\<forall>d \<in> set (avail ?m (row, col)).
      \<exists>n. grid_get (maze ?m) (row + fst d) (col + snd d) = Inr n \<and> traversable n"
  proof
    fix d assume "d \<in> set (avail ?m (row, col))"
    then have o: "is_open ?m (row + fst d, col + snd d)" by (simp add: avail_def add_tuples_eq)
    then have "grid_get (maze ?m) (row + fst d) (col + snd d)
                 = Inr (maze ?m ! nat (row + fst d) ! nat (col + snd d))"
      by (intro wf_grid_get [OF assms(1)]) (simp_all add: is_open_def)
    with o show "\<exists>n. grid_get (maze ?m) (row + fst d) (col + snd d) = Inr n \<and> traversable n"
      by (simp add: is_open_def)
  qed
  have dists: "\<forall>d \<in> set (avail ?m (row, col)).
      calculate_distance_to_end ?m (row + fst d) (col + snd d) = Inr (?D d)"
    by (simp add: calculate_distance_shortest [OF assms(1)] add_tuples_eq)
  have loop: "A_star_loop s (avail ?m (row, col)) \<infinity> None = Inr (pick ?D (avail ?m (row, col)) \<infinity> None)"
    using assms(2) cells dists by (rule A_star_loop_pick)
  obtain l b where lb: "pick ?D (avail ?m (row, col)) \<infinity> None = (l, b)" by (cases "pick ?D (avail ?m (row, col)) \<infinity> None")
  then have ch: "choice ?m (row, col) = b" by (simp add: choice_def)
  show ?thesis
    unfolding ch using assms(2) by (simp add: A_star_def av loop lb split: option.splits)
qed

lemma choice_spec:
  assumes "choice m p = b"
  shows "(b = None \<and> (\<forall>d \<in> set (avail m p). shortest m (add_tuples p d) = \<infinity>)) \<or>
         (\<exists>i < length (avail m p). b = Some (avail m p ! i) \<and>
            shortest m (add_tuples p (avail m p ! i)) \<noteq> \<infinity> \<and>
            (\<forall>j < i. shortest m (add_tuples p (avail m p ! i)) < shortest m (add_tuples p (avail m p ! j))) \<and>
            (\<forall>j < length (avail m p).
                shortest m (add_tuples p (avail m p ! i)) \<le> shortest m (add_tuples p (avail m p ! j))))"
proof -
  let ?D = "\<lambda>d. shortest m (add_tuples p d)"
  obtain l where lb: "pick ?D (avail m p) \<infinity> None = (l, b)"
    using assms by (cases "pick ?D (avail m p) \<infinity> None") (simp add: choice_def)
  from pick_spec [OF lb] show ?thesis
  proof (elim disjE exE conjE)
    assume "b = None" "l = \<infinity>" "\<forall>d \<in> set (avail m p). \<infinity> \<le> ?D d"
    then show ?thesis by simp
  next
    fix i assume a: "i < length (avail m p)" "b = Some (avail m p ! i)" "l = ?D (avail m p ! i)"
      "l < \<infinity>" "\<forall>j < i. l < ?D (avail m p ! j)" "\<forall>j < length (avail m p). l \<le> ?D (avail m p ! j)"
    from a(3,4) have "?D (avail m p ! i) \<noteq> \<infinity>" by auto
    with a show ?thesis by blast
  qed
qed

definition blocked :: Maze where
  "blocked = \<lparr>maze = [[start_cell, open_cell, wall_cell, end_cell]], rows = 1, cols = 4,
               start_node = Some (0, 0), end_node = Some (0, 3)\<rparr>"

lemma build_blocked: "build_maze [''  # ''] (0, 0) (0, 3) = Inr blocked"
  by (simp add: grid_eval blocked_def)

lemma wf_blocked: "wf_maze blocked"
  by (simp add: wf_maze_def blocked_def)

lemma visited_write_idem:
  assumes "grid_upd g0 r c (\<lambda>n. n\<lparr>visited := True\<rparr>) = Inr g"
  shows "grid_upd g r c (\<lambda>n. n\<lparr>visited := True\<rparr>) = Inr g"
proof -
  from grid_get_upd [OF assms] obtain n where
    g': "grid_get g r c = Inr (n\<lparr>visited := True\<rparr>)" by blast
  from grid_upd_again [OF assms] obtain g2 where
    u: "grid_upd g r c (\<lambda>n. n\<lparr>visited := True\<rparr>) = Inr g2" by blast
  have "g2 = g \<longleftrightarrow> (n\<lparr>visited := True\<rparr>)\<lparr>visited := True\<rparr> = n\<lparr>visited := True\<rparr>"
    by (rule grid_upd_id_iff [OF u g'])
  then show ?thesis using u by simp
qed

lemma wf_cell_write:
  assumes "wf_maze m" and "(row, col) \<in> cells m"
  shows "grid_upd (maze m) row col f = Inr (cell_write (maze m) (nat row) (nat col) f)"
proof -
  from assms(2) have b: "0 \<le> row" "row < rows m" "0 \<le> col" "col < cols m"
    by (simp_all add: cells_def)
  then have "grid_upd (maze m) row col f =
      Inr (cell_write (maze m) (resolve (rows m) row) (resolve (cols m) col) f)"
    by (intro wf_grid_upd_resolves [OF assms(1)]) simp_all
  with b show ?thesis by (simp add: resolve_nonneg)
qed

lemma solve_step_wf:
  assumes "wf_maze (solver_maze s)" and "solver s = ''A*''" and "current_pos s = Some (row, col)"
    and "Some (row, col) \<noteq> end_node (solver_maze s)"
    and "grid_upd (maze (solver_maze s)) row col (\<lambda>n. n\<lparr>visited := True\<rparr>) = Inr g"
  shows "solve_step s =
           (case choice (solver_maze s) (row, col) of
              Some bm \<Rightarrow> (Inr False, (mark_visited s g)\<lparr>current_pos := Some (add_tuples (row, col) bm)\<rparr>)
            | None \<Rightarrow> (Inl NoAvailableMove, mark_visited s g))"
proof -
  let ?m = "solver_maze s"
  let ?s1 = "mark_visited s g"
  have m1: "solver_maze ?s1 = ?m\<lparr>maze := g\<rparr>" by (simp add: mark_visited_def)
  have wf1: "wf_maze (solver_maze ?s1)"
    unfolding m1 using assms(1,5) by (rule wf_maze_upd)
  have sl: "same_layout ?m (solver_maze ?s1)"
    unfolding m1 using assms(5) by (rule same_layout_visited)
  have cp1: "current_pos ?s1 = Some (row, col)" using assms(3) by (simp add: mark_visited_def)
  have ch: "choice (solver_maze ?s1) (row, col) = choice ?m (row, col)"
    using assms(1) wf1 sl by (rule choice_same_layout)
  have fm: "find_move ?s1 row col = A_star ?s1 row col"
    using assms(2) by (simp add: find_move_def mark_visited_def)
  show ?thesis
    unfolding solve_step_cases [OF assms(3,4,5)] fm A_star_wf [OF wf1 cp1] ch
    by (simp split: option.splits)
qed

lemma available_loop_sound:
  assumes "available_loop m row col ds acc = Inr res" and "d \<in> set res"
  shows "d \<in> set acc \<or> (\<exists>n. grid_get (maze m) (row + fst d) (col + snd d) = Inr n \<and> traversable n)"
  using assms
proof (induction ds arbitrary: acc)
  case Nil
  then show ?case by simp
next
  case (Cons a ds)
  obtain dr dc where a: "a = (dr, dc)" by (cases a)
  from Cons.prems(1) consider
      (push) n where "grid_get (maze m) (row + dr) (col + dc) = Inr n" "traversable n"
        "available_loop m row col ds (acc @ [(dr, dc)]) = Inr res"
    | (skip) "available_loop m row col ds acc = Inr res"
    unfolding a by (auto simp: Let_def split: if_splits sum.splits)
  then show ?case
  proof cases
    case push
    from Cons.IH [OF push(3) Cons.prems(2)] push(1,2) show ?thesis by auto
  next
    case skip
    from Cons.IH [OF skip Cons.prems(2)] show ?thesis .
  qed
qed

lemma pick_all_infinite: "pick (\<lambda>d. \<infinity>) ds l b = (l, b)"
  by (induction ds arbitrary: l b) simp_all

lemma step_without_best_direction:
  assumes "solver s = ''A*''" and "current_pos s = Some (row, col)"
    and "Some (row, col) \<noteq> end_node (solver_maze s)"
    and "grid_upd (maze (solver_maze s)) row col (\<lambda>n. n\<lparr>visited := True\<rparr>) = Inr g"
    and "get_available_directions (solver_maze s) row col = Inr ds"
    and "\<forall>d \<in> set ds. calculate_distance_to_end (solver_maze s) (row + fst d) (col + snd d) = Inr \<infinity>"
  shows "solve_step s = (Inl NoAvailableMove, mark_visited s g)"
proof -
  let ?m = "solver_maze s"
  let ?s1 = "mark_visited s g"
  have m1: "solver_maze ?s1 = ?m\<lparr>maze := g\<rparr>" by (simp add: mark_visited_def)
  have sl: "same_layout ?m (solver_maze ?s1)"
    unfolding m1 using assms(4) by (rule same_layout_visited)
  have cp1: "current_pos ?s1 = Some (row, col)" using assms(2) by (simp add: mark_visited_def)
  have av: "get_available_directions (solver_maze ?s1) row col = Inr ds"
    using available_loop_same_layout [OF sl] assms(5) by (simp add: get_available_directions_def)
  have cells: "\<forall>d \<in> set ds. \<exists>n. grid_get (maze (solver_maze ?s1)) (row + fst d) (col + snd d) = Inr n \<and> traversable n"
  proof
    fix d assume "d \<in> set ds"
    from available_loop_sound [OF av [unfolded get_available_directions_def] this]
    show "\<exists>n. grid_get (maze (solver_maze ?s1)) (row + fst d) (col + snd d) = Inr n \<and> traversable n"
      by simp
  qed
  have dists: "\<forall>d \<in> set ds. calculate_distance_to_end (solver_maze ?s1) (row + fst d) (col + snd d) = Inr ((\<lambda>d. \<infinity>) d)"
    using assms(6) calculate_distance_same_layout [OF sl] by simp
  have "A_star_loop ?s1 ds \<infinity> None = Inr (pick (\<lambda>d. \<infinity>) ds \<infinity> None)"
    using cp1 cells dists by (rule A_star_loop_pick)
  then have loop: "A_star_loop ?s1 ds \<infinity> None = Inr (\<infinity>, None)"
    by (simp add: pick_all_infinite)
  have "A_star ?s1 row col = (Inl NoAvailableMove, ?s1)"
    by (simp add: A_star_def av loop)
  moreover have "find_move ?s1 row col = A_star ?s1 row col"
    using assms(1) by (simp add: find_move_def mark_visited_def)
  ultimately show ?thesis
    unfolding solve_step_cases [OF assms(2,3,4)] by simp
qed

text \<open>
  C5. Whenever a step of the solver (strategy \<open>"A*"\<close>) is taken from a cell other than the
  end position and there is no best direction (no direction is available, or every
  available one has infinite distance to the end), \<open>solve_step\<close> does not return but raises
  the no-available-move exception, directly out of the one selection it made. Nothing
  recovers from it: the solver keeps its position, and every further call fails the same
  way.
\<close>

theorem no_best_direction_raises:
  assumes "solver s = ''A*''" and "current_pos s = Some (row, col)"
    and "Some (row, col) \<noteq> end_node (solver_maze s)"
    and "grid_upd (maze (solver_maze s)) row col (\<lambda>n. n\<lparr>visited := True\<rparr>) = Inr g"
    and "get_available_directions (solver_maze s) row col = Inr ds"
    and "\<forall>d \<in> set ds. calculate_distance_to_end (solver_maze s) (row + fst d) (col + snd d) = Inr \<infinity>"
  shows "solve_step s = (Inl NoAvailableMove, s\<lparr>solver_maze := (solver_maze s)\<lparr>maze := g\<rparr>\<rparr>) \<and>
         current_pos (snd (solve_step s)) = current_pos s \<and>
         solve_step (snd (solve_step s)) = solve_step s \<and>
         (\<forall>n > 0. solve_loop n s = (1, Inl NoAvailableMove))"
proof -
  let ?m = "solver_maze s"
  let ?s1 = "mark_visited s g"
  have st: "solve_step s = (Inl NoAvailableMove, ?s1)"
    using assms by (rule step_without_best_direction)
  have m1: "solver_maze ?s1 = ?m\<lparr>maze := g\<rparr>" by (simp add: mark_visited_def)
  have sl: "same_layout ?m (solver_maze ?s1)"
    unfolding m1 using assms(4) by (rule same_layout_visited)
  have "solve_step ?s1 = (Inl NoAvailableMove, mark_visited ?s1 g)"
  proof (rule step_without_best_direction)
    show "solver ?s1 = ''A*''" using assms(1) by (simp add: mark_visited_def)
    show "current_pos ?s1 = Some (row, col)" using assms(2) by (simp add: mark_visited_def)
    show "Some (row, col) \<noteq> end_node (solver_maze ?s1)" using assms(3) by (simp add: mark_visited_def)
    show "grid_upd (maze (solver_maze ?s1)) row col (\<lambda>n. n\<lparr>visited := True\<rparr>) = Inr g"
      unfolding m1 using visited_write_idem [OF assms(4)] by simp
    show "get_available_directions (solver_maze ?s1) row col = Inr ds"
      using available_loop_same_layout [OF sl] assms(5) by (simp add: get_available_directions_def)
    show "\<forall>d \<in> set ds. calculate_distance_to_end (solver_maze ?s1) (row + fst d) (col + snd d) = Inr \<infinity>"
      using assms(6) calculate_distance_same_layout [OF sl] by simp
  qed
  moreover have "mark_visited ?s1 g = ?s1" by (simp add: mark_visited_def)
  ultimately have again: "solve_step ?s1 = (Inl NoAvailableMove, ?s1)" by simp
  have loop: "\<forall>n > 0. solve_loop n s = (1, Inl NoAvailableMove)"
  proof (intro allI impI)
    fix n :: nat assume "0 < n"
    then obtain k where "n = Suc k" by (cases n) auto
    then show "solve_loop n s = (1, Inl NoAvailableMove)" using st by simp
  qed
  show ?thesis
    using st again loop assms(2) by (simp add: mark_visited_def)
qed

theorem no_best_direction_raises_witness:
  "solver (MazeSolver_init blocked ''A*'') = ''A*'' \<and>
   current_pos (MazeSolver_init blocked ''A*'') = Some (0, 0) \<and>
   get_available_directions blocked 0 0 = Inr [(0, 1)] \<and>
   calculate_distance_to_end blocked 0 1 = Inr \<infinity> \<and>
   solve_step (MazeSolver_init blocked ''A*'') =
     (Inl NoAvailableMove,
      \<lparr>solver_maze = blocked\<lparr>maze := [[start_cell\<lparr>visited := True\<rparr>, open_cell, wall_cell, end_cell]]\<rparr>,
       current_pos = Some (0, 0), facing = 0, solver = ''A*''\<rparr>) \<and>
   solve_loop 5 (MazeSolver_init blocked ''A*'') = (1, Inl NoAvailableMove)"
proof -
  let ?s = "MazeSolver_init blocked ''A*''"
  have 1: "solver ?s = ''A*''" and 2: "current_pos ?s = Some (0, 0)"
    and 3: "Some (0, 0) \<noteq> end_node (solver_maze ?s)"
    and 4: "grid_upd (maze (solver_maze ?s)) 0 0 (\<lambda>n. n\<lparr>visited := True\<rparr>)
              = Inr [[start_cell\<lparr>visited := True\<rparr>, open_cell, wall_cell, end_cell]]"
    and 5: "get_available_directions (solver_maze ?s) 0 0 = Inr [(0, 1)]"
    by (simp_all add: MazeSolver_init_def blocked_def grid_eval get_available_directions_def dirs4_def)
  have d: "calculate_distance_to_end blocked 0 1 = Inr \<infinity>"
    by (simp add: bfs_eval grid_eval blocked_def)
  then have 6: "\<forall>d \<in> set [(0, 1)]. calculate_distance_to_end (solver_maze ?s) (0 + fst d) (0 + snd d) = Inr \<infinity>"
    by (simp add: MazeSolver_init_def)
  from no_best_direction_raises [OF 1 2 3 4 5 6] 1 2 5 d show ?thesis
    by (simp add: MazeSolver_init_def)
qed

definition open_3x3 :: Maze where
  "open_3x3 =
     \<lparr>maze = [[end_cell, open_cell, open_cell],
              [open_cell, start_cell, open_cell],
              [open_cell, open_cell, open_cell]],
      rows = 3, cols = 3, start_node = Some (1, 1), end_node = Some (0, 0)\<rparr>"

lemma build_open_3x3: "build_maze [''   '', ''   '', ''   ''] (1, 1) (0, 0) = Inr open_3x3"
  by (simp add: grid_eval open_3x3_def)

lemma wf_open_3x3: "wf_maze open_3x3"
  by (simp add: wf_maze_def open_3x3_def)











section \<open>Progress of the greedy walk\<close>

lemma nbrs_avail: "nbrs m p = map (add_tuples p) (avail m p)"
  by (simp add: nbrs_def avail_def filter_map comp_def)

lemma path_Nil: "path_to_end m p [] \<longleftrightarrow> Some p = end_node m"
  by (simp add: path_to_end_def)

lemma path_Cons: "path_to_end m p (x # xs) \<longleftrightarrow> x \<in> set (nbrs m p) \<and> path_to_end m x xs"
  by (auto simp: path_to_end_def)

lemma shortest_zero: "shortest m p = enat 0 \<longleftrightarrow> Some p = end_node m"
proof
  assume "shortest m p = enat 0"
  from shortest_attained [OF this] show "Some p = end_node m" by (simp add: path_Nil)
next
  assume "Some p = end_node m"
  then have "path_to_end m p []" by (simp add: path_Nil)
  from shortest_le [OF this] have "shortest m p \<le> enat 0" by simp
  then show "shortest m p = enat 0" by (cases "shortest m p") simp_all
qed

lemma shortest_nbr_le:
  assumes "x \<in> set (nbrs m p)"
  shows "shortest m p \<le> eSuc (shortest m x)"
proof (cases "shortest m x")
  case (enat n)
  from shortest_attained [OF enat] obtain ws where "path_to_end m x ws" "length ws = n" by blast
  with assms have "path_to_end m p (x # ws)" "length (x # ws) = Suc n" by (simp_all add: path_Cons)
  from shortest_le [OF this(1)] this(2) enat show ?thesis by (simp add: eSuc_enat)
next
  case infinity
  then show ?thesis by simp
qed

lemma shortest_nbr_attained:
  assumes "shortest m p = enat (Suc n)"
  shows "\<exists>x \<in> set (nbrs m p). shortest m x = enat n"
proof -
  from shortest_attained [OF assms] obtain ws where ws: "path_to_end m p ws" "length ws = Suc n"
    by blast
  then obtain x xs where c: "ws = x # xs" by (cases ws) auto
  with ws have x: "x \<in> set (nbrs m p)" and p: "path_to_end m x xs" and l: "length xs = n"
    by (simp_all add: path_Cons)
  from shortest_le [OF p] l have up: "shortest m x \<le> enat n" by simp
  from shortest_nbr_le [OF x] assms have "enat (Suc n) \<le> eSuc (shortest m x)" by simp
  with up have "shortest m x = enat n"
    by (cases "shortest m x") (simp_all add: eSuc_enat)
  with x show ?thesis by blast
qed

lemma choice_None:
  assumes "shortest m p = \<infinity>"
  shows "choice m p = None"
proof -
  have "shortest m (add_tuples p d) = \<infinity>" if "d \<in> set (avail m p)" for d
  proof -
    from that have "add_tuples p d \<in> set (nbrs m p)" by (simp add: nbrs_avail)
    from shortest_nbr_le [OF this] assms have "\<infinity> \<le> eSuc (shortest m (add_tuples p d))" by simp
    then show ?thesis by (cases "shortest m (add_tuples p d)") (simp_all add: eSuc_enat)
  qed
  then have all: "\<forall>d \<in> set (avail m p). shortest m (add_tuples p d) = \<infinity>" by blast
  from choice_spec [OF refl, of m p] show ?thesis
  proof (elim disjE exE conjE)
    assume "choice m p = None" then show ?thesis .
  next
    fix i assume "i < length (avail m p)" "shortest m (add_tuples p (avail m p ! i)) \<noteq> \<infinity>"
    with all show ?thesis by simp
  qed
qed

lemma choice_Some:
  assumes "shortest m p = enat (Suc n)"
  shows "\<exists>d. choice m p = Some d \<and> is_open m (add_tuples p d) \<and> shortest m (add_tuples p d) = enat n"
proof -
  from shortest_nbr_attained [OF assms] obtain x where
    x: "x \<in> set (nbrs m p)" "shortest m x = enat n" by blast
  then obtain d0 where d0: "d0 \<in> set (avail m p)" "x = add_tuples p d0"
    by (auto simp: nbrs_avail)
  from choice_spec [OF refl, of m p] show ?thesis
  proof (elim disjE exE conjE)
    assume "\<forall>d \<in> set (avail m p). shortest m (add_tuples p d) = \<infinity>"
    with d0 x(2) show ?thesis by simp
  next
    fix i assume i: "i < length (avail m p)" and c: "choice m p = Some (avail m p ! i)"
      and le: "\<forall>j < length (avail m p).
        shortest m (add_tuples p (avail m p ! i)) \<le> shortest m (add_tuples p (avail m p ! j))"
    let ?d = "avail m p ! i"
    have mem: "?d \<in> set (avail m p)" using i by simp
    then have nb: "add_tuples p ?d \<in> set (nbrs m p)" by (simp add: nbrs_avail)
    from d0(1) obtain j where "j < length (avail m p)" "avail m p ! j = d0"
      by (auto simp: in_set_conv_nth)
    with le have "shortest m (add_tuples p ?d) \<le> shortest m (add_tuples p d0)" by auto
    with x(2) d0(2) have up: "shortest m (add_tuples p ?d) \<le> enat n" by simp
    from shortest_nbr_le [OF nb] assms have "enat (Suc n) \<le> eSuc (shortest m (add_tuples p ?d))"
      by simp
    with up have "shortest m (add_tuples p ?d) = enat n"
      by (cases "shortest m (add_tuples p ?d)") (simp_all add: eSuc_enat)
    moreover have "is_open m (add_tuples p ?d)" using nb by (rule nbrs_open)
    ultimately show ?thesis using c by blast
  qed
qed

lemma is_open_cells: "is_open m p \<Longrightarrow> p \<in> cells m"
  by (cases p) (simp add: is_open_def cells_def)

lemma walk_shortcut:
  assumes "walk m p ws" and "\<not> distinct (p # ws)"
  shows "\<exists>ws'. walk m p ws' \<and> last (p # ws') = last (p # ws) \<and> length ws' < length ws"
  using assms
proof (induction ws arbitrary: p)
  case Nil
  then show ?case by simp
next
  case (Cons y ys)
  from Cons.prems(1) have y: "y \<in> set (nbrs m p)" and w: "walk m y ys" by simp_all
  show ?case
  proof (cases "p \<in> set (y # ys)")
    case True
    from walk_suffix_from [OF w True] obtain ws' where
      "walk m p ws'" "last (p # ws') = last (y # ys)" "length ws' \<le> length ys" by blast
    then have "walk m p ws' \<and> last (p # ws') = last (p # y # ys) \<and> length ws' < length (y # ys)"
      by simp
    then show ?thesis by blast
  next
    case False
    with Cons.prems(2) have "\<not> distinct (y # ys)" by simp
    from Cons.IH [OF w this] obtain ys' where
      ys': "walk m y ys'" "last (y # ys') = last (y # ys)" "length ys' < length ys" by blast
    with y have "walk m p (y # ys') \<and> last (p # y # ys') = last (p # y # ys) \<and>
        length (y # ys') < length (y # ys)" by simp
    then show ?thesis by blast
  qed
qed

lemma card_cells: "card (cells m) = nat (rows m) * nat (cols m)"
  unfolding cells_def card_cartesian_product by simp

lemma shortest_bound:
  assumes "shortest m p = enat n" and "p \<in> cells m"
  shows "int (Suc n) \<le> rows m * cols m"
proof -
  from shortest_attained [OF assms(1)] obtain ws where ws: "path_to_end m p ws" "length ws = n"
    by blast
  then have w: "walk m p ws" and e: "Some (last (p # ws)) = end_node m"
    by (simp_all add: path_to_end_def)
  have d: "distinct (p # ws)"
  proof (rule ccontr)
    assume "\<not> distinct (p # ws)"
    from walk_shortcut [OF w this] obtain ws' where
      ws': "walk m p ws'" "last (p # ws') = last (p # ws)" "length ws' < length ws" by blast
    from ws'(1,2) e have "path_to_end m p ws'" unfolding path_to_end_def by simp
    from shortest_le [OF this] have "enat n \<le> enat (length ws')" unfolding assms(1) .
    then have "n \<le> length ws'" by simp
    with ws'(3) ws(2) show False by simp
  qed
  have sub: "set (p # ws) \<subseteq> cells m"
  proof
    fix x assume "x \<in> set (p # ws)"
    then consider "x = p" | "x \<in> set ws" by auto
    then show "x \<in> cells m"
    proof cases
      case 1
      with assms(2) show ?thesis by simp
    next
      case 2
      with w have "is_open m x" by (rule walk_cells_open)
      then show ?thesis by (rule is_open_cells)
    qed
  qed
  have "card (set (p # ws)) = length (p # ws)" using d by (rule distinct_card)
  then have c: "card (set (p # ws)) = Suc n" using ws(2) by simp
  have "card (set (p # ws)) \<le> card (cells m)"
    using finite_cells sub by (rule card_mono)
  then have le: "Suc n \<le> nat (rows m) * nat (cols m)"
    unfolding c card_cells .
  obtain r c where "p = (r, c)" by (cases p)
  with assms(2) have "0 \<le> r" "r < rows m" "0 \<le> c" "c < cols m" by (simp_all add: cells_def)
  then have nn: "0 \<le> rows m" "0 \<le> cols m" by simp_all
  have "int (nat (rows m) * nat (cols m)) = rows m * cols m"
    using nn by (simp add: nat_mult_distrib)
  moreover have "int (Suc n) \<le> int (nat (rows m) * nat (cols m))"
    using le by (rule iffD2 [OF of_nat_le_iff])
  ultimately show ?thesis by simp
qed

definition solver_ok :: "MazeSolver \<Rightarrow> pos \<Rightarrow> bool" where
  "solver_ok s p \<longleftrightarrow>
     wf_maze (solver_maze s) \<and> solver s = ''A*'' \<and> current_pos s = Some p \<and> p \<in> cells (solver_maze s)"

lemma step_done:
  assumes "current_pos s = Some p" and "shortest (solver_maze s) p = enat 0"
  shows "solve_step s = (Inr True, s)"
proof -
  from assms(2) have "Some p = end_node (solver_maze s)" by (simp only: shortest_zero)
  with assms(1) show ?thesis by (simp add: solve_step_def)
qed

lemma step_stuck:
  assumes "solver_ok s p" and "shortest (solver_maze s) p = \<infinity>"
  shows "\<exists>s'. solve_step s = (Inl NoAvailableMove, s')"
proof -
  obtain row col where p: "p = (row, col)" by (cases p)
  let ?m = "solver_maze s"
  from assms(1) have wf: "wf_maze ?m" and sv: "solver s = ''A*''"
    and cp: "current_pos s = Some (row, col)" and inb: "(row, col) \<in> cells ?m"
    by (simp_all add: solver_ok_def p)
  have ne: "Some (row, col) \<noteq> end_node ?m"
  proof
    assume "Some (row, col) = end_node ?m"
    then have "shortest ?m (row, col) = enat 0" by (simp only: shortest_zero)
    with assms(2) p show False by simp
  qed
  let ?g = "cell_write (maze ?m) (nat row) (nat col) (\<lambda>n. n\<lparr>visited := True\<rparr>)"
  have up: "grid_upd (maze ?m) row col (\<lambda>n. n\<lparr>visited := True\<rparr>) = Inr ?g"
    using wf inb by (rule wf_cell_write)
  have "choice ?m (row, col) = None" using assms(2) p by (intro choice_None) simp
  then have "solve_step s = (Inl NoAvailableMove, mark_visited s ?g)"
    by (simp add: solve_step_wf [OF wf sv cp ne up])
  then show ?thesis by blast
qed

lemma step_progress:
  assumes "solver_ok s p" and "shortest (solver_maze s) p = enat (Suc n)"
  shows "\<exists>s' q. solve_step s = (Inr False, s') \<and> solver_ok s' q \<and>
                shortest (solver_maze s') q = enat n"
proof -
  obtain row col where p: "p = (row, col)" by (cases p)
  let ?m = "solver_maze s"
  from assms(1) have wf: "wf_maze ?m" and sv: "solver s = ''A*''"
    and cp: "current_pos s = Some (row, col)" and inb: "(row, col) \<in> cells ?m"
    by (simp_all add: solver_ok_def p)
  have ne: "Some (row, col) \<noteq> end_node ?m"
  proof
    assume "Some (row, col) = end_node ?m"
    then have "shortest ?m (row, col) = enat 0" by (simp only: shortest_zero)
    with assms(2) p show False by simp
  qed
  let ?g = "cell_write (maze ?m) (nat row) (nat col) (\<lambda>n. n\<lparr>visited := True\<rparr>)"
  have up: "grid_upd (maze ?m) row col (\<lambda>n. n\<lparr>visited := True\<rparr>) = Inr ?g"
    using wf inb by (rule wf_cell_write)
  from choice_Some [OF assms(2) [unfolded p]] obtain d where
    ch: "choice ?m (row, col) = Some d" and op: "is_open ?m (add_tuples (row, col) d)"
    and sh: "shortest ?m (add_tuples (row, col) d) = enat n" by blast
  let ?q = "add_tuples (row, col) d"
  let ?s' = "(mark_visited s ?g)\<lparr>current_pos := Some ?q\<rparr>"
  have st: "solve_step s = (Inr False, ?s')"
    by (simp add: solve_step_wf [OF wf sv cp ne up] ch)
  have m': "solver_maze ?s' = ?m\<lparr>maze := ?g\<rparr>" by (simp add: mark_visited_def)
  have wf': "wf_maze (solver_maze ?s')" unfolding m' using wf up by (rule wf_maze_upd)
  have sl: "same_layout ?m (solver_maze ?s')" unfolding m' using up by (rule same_layout_visited)
  have "cells (solver_maze ?s') = cells ?m" by (simp add: m' cells_def)
  then have inb': "?q \<in> cells (solver_maze ?s')" using is_open_cells [OF op] by simp
  have ok: "solver_ok ?s' ?q"
    using wf' sv inb' by (simp add: solver_ok_def mark_visited_def)
  have wf2: "wf_maze (?m\<lparr>maze := ?g\<rparr>)" using wf up by (rule wf_maze_upd)
  have sl2: "same_layout ?m (?m\<lparr>maze := ?g\<rparr>)" using up by (rule same_layout_visited)
  have "shortest (?m\<lparr>maze := ?g\<rparr>) x = shortest ?m x" for x
    using shortest_same_layout [OF wf wf2 sl2, of "fst x" "snd x"] by simp
  then have "shortest (solver_maze ?s') ?q = shortest ?m ?q"
    unfolding m' .
  with sh have "shortest (solver_maze ?s') ?q = enat n" by simp
  with st ok show ?thesis by blast
qed

lemma solve_loop_reaches:
  assumes "solver_ok s p" and "shortest (solver_maze s) p = enat n" and "n < N"
  shows "solve_loop N s = (Suc n, Inr True)"
  using assms
proof (induction n arbitrary: s p N)
  case 0
  from 0(3) obtain N' where N: "N = Suc N'" by (cases N) auto
  from 0(1) have "current_pos s = Some p" by (simp add: solver_ok_def)
  from step_done [OF this 0(2)] show ?case by (simp add: N)
next
  case (Suc n)
  from Suc.prems(3) obtain N' where N: "N = Suc N'" and lt: "n < N'" by (cases N) auto
  from step_progress [OF Suc.prems(1,2)] obtain s' q where
    st: "solve_step s = (Inr False, s')" and ok: "solver_ok s' q"
    and sh: "shortest (solver_maze s') q = enat n" by blast
  from Suc.IH [OF ok sh lt] have "solve_loop N' s' = (Suc n, Inr True)" .
  with st show ?case by (simp add: N)
qed

lemma solve_terminates:
  assumes "solver_ok s p"
  shows "\<exists>k r. 0 < k \<and> int k \<le> rows (solver_maze s) * cols (solver_maze s) \<and>
               (r = Inr True \<or> r = Inl NoAvailableMove) \<and>
               (\<forall>N \<ge> k. solve_loop N s = (k, r))"
proof (cases "shortest (solver_maze s) p")
  case (enat n)
  from assms have inb: "p \<in> cells (solver_maze s)" by (simp add: solver_ok_def)
  have b: "int (Suc n) \<le> rows (solver_maze s) * cols (solver_maze s)"
    using enat inb by (rule shortest_bound)
  have "\<forall>N \<ge> Suc n. solve_loop N s = (Suc n, Inr True)"
  proof (intro allI impI)
    fix N assume "Suc n \<le> N"
    then have "n < N" by simp
    with assms enat show "solve_loop N s = (Suc n, Inr True)" by (rule solve_loop_reaches)
  qed
  with b have "0 < Suc n \<and> int (Suc n) \<le> rows (solver_maze s) * cols (solver_maze s) \<and>
      (Inr True = (Inr True :: error + bool) \<or> Inr True = Inl NoAvailableMove) \<and>
      (\<forall>N \<ge> Suc n. solve_loop N s = (Suc n, Inr True))" by simp
  then show ?thesis by blast
next
  case infinity
  from step_stuck [OF assms infinity] obtain s' where st: "solve_step s = (Inl NoAvailableMove, s')"
    by blast
  obtain r c where p: "p = (r, c)" by (cases p)
  from assms p have "0 \<le> r" "r < rows (solver_maze s)" "0 \<le> c" "c < cols (solver_maze s)"
    by (simp_all add: solver_ok_def cells_def)
  then have "0 < rows (solver_maze s)" "0 < cols (solver_maze s)" by simp_all
  then have "0 < rows (solver_maze s) * cols (solver_maze s)" by (rule mult_pos_pos)
  then have b: "int 1 \<le> rows (solver_maze s) * cols (solver_maze s)" by simp
  have "\<forall>N \<ge> 1. solve_loop N s = (1, Inl NoAvailableMove)"
  proof (intro allI impI)
    fix N :: nat assume "1 \<le> N"
    then obtain N' where "N = Suc N'" by (cases N) auto
    with st show "solve_loop N s = (1, Inl NoAvailableMove)" by simp
  qed
  with b have "0 < (1::nat) \<and> int 1 \<le> rows (solver_maze s) * cols (solver_maze s) \<and>
      (Inl NoAvailableMove = (Inr True :: error + bool) \<or> Inl NoAvailableMove = (Inl NoAvailableMove :: error + bool)) \<and>
      (\<forall>N \<ge> 1. solve_loop N s = (1, Inl NoAvailableMove))" by simp
  then show ?thesis by blast
qed

end
